theory Spec2Isabelle
  imports Main "HOL-Library.Word"
begin

section \<open>Go strings: the library functions the text patcher calls\<close>

text \<open>
  A Go string is a sequence of bytes; \<^typ>\<open>string\<close> (a list of 8-bit characters) is
  the same thing. The functions below follow the documented behaviour of package
  \<open>strings\<close>: \<open>HasPrefix\<close>, \<open>TrimPrefix\<close>, \<open>Index\<close> (the index of the first
  instance of the substring, or \<open>-1\<close>) and \<open>Contains\<close> (\<open>Index(s, substr) >= 0\<close>).
\<close>

definition HasPrefix :: "string \<Rightarrow> string \<Rightarrow> bool" where
  "HasPrefix s p = (length p \<le> length s \<and> take (length p) s = p)"

definition TrimPrefix :: "string \<Rightarrow> string \<Rightarrow> string" where
  "TrimPrefix s p = (if HasPrefix s p then drop (length p) s else s)"

fun Index :: "string \<Rightarrow> string \<Rightarrow> int" where
  "Index [] substr = (if substr = [] then 0 else - 1)"
| "Index (c # s) substr =
     (if HasPrefix (c # s) substr then 0
      else (let i = Index s substr in if i < 0 then - 1 else i + 1))"

definition Contains :: "string \<Rightarrow> string \<Rightarrow> bool" where
  "Contains s substr = (0 \<le> Index s substr)"

section \<open>bufio.Scanner with the default split function ScanLines\<close>

text \<open>
  \<open>bufio.NewScanner\<close> splits its input into lines. One call of \<open>Scan\<close> on the unread
  input \<open>data\<close>:
  \<^item> at the end of the input there is no token and \<open>Scan\<close> is false;
  \<^item> a line runs up to the next newline, which is consumed and not part of the token;
    a last line without a newline is a token too;
  \<^item> \<open>dropCR\<close> removes one trailing carriage return from the token;
  \<^item> the scanner's buffer holds at most \<open>MaxScanTokenSize\<close> bytes: when the line's
    end is not found within them, \<open>Scan\<close> stops with \<open>ErrTooLong\<close> and returns false.
  \<open>Scan\<close> returns the token (\<open>scanner.Text()\<close>) together with the input left to read,
  or \<open>None\<close> where the Go method returns false.
\<close>

definition newline :: char where
  "newline = CHR 0x0A"

definition MaxScanTokenSize :: nat where
  "MaxScanTokenSize = 64 * 1024"

definition dropCR :: "string \<Rightarrow> string" where
  "dropCR data = (if data \<noteq> [] \<and> last data = CHR 0x0D then butlast data else data)"

fun IndexByte :: "string \<Rightarrow> char \<Rightarrow> nat option" where
  "IndexByte [] c = None"
| "IndexByte (b # bs) c =
     (if b = c then Some 0 else map_option Suc (IndexByte bs c))"

definition Scan :: "string \<Rightarrow> (string \<times> string) option" where
  "Scan data =
     (if data = [] then None
      else case IndexByte data newline of
             Some i \<Rightarrow>
               if i < MaxScanTokenSize then Some (dropCR (take i data), drop (i + 1) data)
               else None
           | None \<Rightarrow>
               if length data < MaxScanTokenSize then Some (dropCR data, [])
               else None)"

section \<open>The file system\<close>

text \<open>
  Regular files only. A file has its content, its mode bits (\<open>os.FileMode\<close>, a
  \<open>uint32\<close>) and what the calling process may do with it. The world also keeps the
  trace of the file-system calls made, so that "no file I/O" and "no write" are
  statements about the state.

  \<^item> \<open>os.Stat\<close> fails on a missing file and returns the mode otherwise.
  \<^item> \<open>ioutil.ReadFile\<close> fails on a missing or unreadable file.
  \<^item> \<open>ioutil.WriteFile(name, data, perm)\<close> opens the file with
    \<open>O_WRONLY|O_CREATE|O_TRUNC\<close>, writes the data and closes it. If the file does not
    exist it is created with permissions \<open>perm\<close> (the umask is left out); otherwise
    its permissions do not change. When the open is refused nothing changes. The open
    truncates the file, so a write that then fails (no space left on the device)
    returns its error and leaves the file with the bytes that were written, none or a
    part of the data.

  What a write to a file meets is part of the file's state: \<open>Granted\<close>, the open
  and the write go through; \<open>Denied\<close>, the open is refused; \<open>Faulty n\<close>, the device
  takes \<open>n\<close> bytes and no more. A file is writable when the write is granted.
\<close>

type_synonym path = string

type_synonym FileMode = "32 word"

datatype write_access = Granted | Denied | Faulty nat

record file_state =
  content :: string
  mode :: FileMode
  readable :: bool
  write_access :: write_access

definition writable :: "file_state \<Rightarrow> bool" where
  "writable f = (write_access f = Granted)"

datatype io_event =
  EvStat path
| EvRead path
| EvWrite path string FileMode

record world =
  files :: "path \<rightharpoonup> file_state"
  trace :: "io_event list"

datatype errno = ENOENT | EACCES | ENOSPC

datatype error =
  PathError string path errno
| errorString string
| SyntaxError string

definition log_event :: "world \<Rightarrow> io_event \<Rightarrow> world" where
  "log_event w e = w\<lparr>trace := trace w @ [e]\<rparr>"

definition Stat :: "world \<Rightarrow> path \<Rightarrow> (error + FileMode) \<times> world" where
  "Stat w p =
     (case files w p of
        None \<Rightarrow> (Inl (PathError ''stat'' p ENOENT), log_event w (EvStat p))
      | Some f \<Rightarrow> (Inr (mode f), log_event w (EvStat p)))"

definition ReadFile :: "world \<Rightarrow> path \<Rightarrow> (error + string) \<times> world" where
  "ReadFile w p =
     (case files w p of
        None \<Rightarrow> (Inl (PathError ''open'' p ENOENT), log_event w (EvRead p))
      | Some f \<Rightarrow>
          if readable f then (Inr (content f), log_event w (EvRead p))
          else (Inl (PathError ''open'' p EACCES), log_event w (EvRead p)))"

definition WriteFile :: "world \<Rightarrow> path \<Rightarrow> string \<Rightarrow> FileMode \<Rightarrow> error option \<times> world" where
  "WriteFile w p data perm =
     (let w1 = log_event w (EvWrite p data perm) in
      case files w p of
        None \<Rightarrow>
          (None, w1\<lparr>files := (files w1)(p \<mapsto>
             \<lparr>content = data, mode = perm, readable = True, write_access = Granted\<rparr>)\<rparr>)
      | Some f \<Rightarrow>
          (case write_access f of
             Denied \<Rightarrow> (Some (PathError ''open'' p EACCES), w1)
           | Granted \<Rightarrow> (None, w1\<lparr>files := (files w1)(p \<mapsto> f\<lparr>content := data\<rparr>)\<rparr>)
           | Faulty n \<Rightarrow>
               if length data \<le> n
               then (None, w1\<lparr>files := (files w1)(p \<mapsto> f\<lparr>content := data\<rparr>)\<rparr>)
               else (Some (PathError ''write'' p ENOSPC),
                     w1\<lparr>files := (files w1)(p \<mapsto> f\<lparr>content := take n data\<rparr>)\<rparr>)))"

section \<open>UncommentCode\<close>

text \<open>
  The scanner loop of \<open>UncommentCode\<close>: \<open>out\<close> is the buffer, \<open>text\<close> the token of the
  last successful \<open>Scan\<close>, \<open>rest\<close> the input the scanner has not read yet. Each round
  writes the token without the prefix, scans again, stops when that fails and writes
  a newline otherwise. Writing to a \<open>bytes.Buffer\<close> never returns an error, so the
  error returns after the buffer writes are dead code and have no branch here.
\<close>

function uncomment_loop :: "string \<Rightarrow> string \<Rightarrow> string \<Rightarrow> string \<Rightarrow> string" where
  "uncomment_loop out text prefix rest =
     (case Scan rest of
        None \<Rightarrow> out @ TrimPrefix text prefix
      | Some (text', rest') \<Rightarrow>
          uncomment_loop (out @ TrimPrefix text prefix @ [newline]) text' prefix rest')"
  by pat_completeness auto

lemma IndexByte_less: "IndexByte data c = Some i \<Longrightarrow> i < length data"
  by (induction data arbitrary: i) (auto split: if_splits)

lemma Scan_shorter: "Scan data = Some (tok, rest) \<Longrightarrow> length rest < length data"
  by (auto simp: Scan_def split: if_splits option.splits dest: IndexByte_less)

termination uncomment_loop
  by (relation "measure (\<lambda>(out, text, prefix, rest). length rest)")
     (auto dest: Scan_shorter)

declare uncomment_loop.simps [simp del]

text \<open>
  \<open>UncommentCode(filename, target, prefix)\<close>. The result is the returned error
  (\<open>None\<close> for \<open>nil\<close>) and the world after the call. The message of the error is
  \<open>fmt.Errorf("unable to find the code %s to be uncomment", target)\<close>.
\<close>

definition UncommentCode :: "world \<Rightarrow> path \<Rightarrow> string \<Rightarrow> string \<Rightarrow> error option \<times> world" where
  "UncommentCode w filename target prefix =
     (case ReadFile w filename of
        (Inl err, w1) \<Rightarrow> (Some err, w1)
      | (Inr strContent, w1) \<Rightarrow>
          (let idx = Index strContent target in
           if idx < 0
           then (Some (errorString
                   (''unable to find the code '' @ target @ '' to be uncomment'')), w1)
           else
             (case Scan target of
                None \<Rightarrow> (None, w1)
              | Some (text, rest) \<Rightarrow>
                  (let out = uncomment_loop (take (nat idx) strContent) text prefix rest;
                       out' = out @ drop (nat idx + length target) strContent
                   in WriteFile w1 filename out' 0x1A4))))"

section \<open>strings.Replace\<close>

text \<open>
  \<open>utf8.DecodeRuneInString\<close> returns the width in bytes of the first UTF-8 sequence
  of a string: the width the encoding announces when the sequence is well formed,
  \<open>1\<close> for an ASCII byte and for the first byte of anything malformed, \<open>0\<close> for the
  empty string. The second byte of a sequence has a range that depends on the first
  (\<open>acceptRanges\<close>); the third and fourth are continuation bytes \<open>0x80..0xBF\<close>.
\<close>

definition DecodeRuneInString_size :: "string \<Rightarrow> nat" where
  "DecodeRuneInString_size s =
     (case s of
        [] \<Rightarrow> 0
      | c0 # _ \<Rightarrow>
          (let s0 = (of_char c0 :: nat) in
           if s0 < 0xC2 \<or> 0xF4 < s0 then 1
           else
             (let sz = (if s0 < 0xE0 then 2 else if s0 < 0xF0 then 3 else 4 :: nat);
                  lo = (if s0 = 0xE0 then 0xA0 else if s0 = 0xF0 then 0x90 else 0x80 :: nat);
                  hi = (if s0 = 0xED then 0x9F else if s0 = 0xF4 then 0x8F else 0xBF :: nat)
              in if length s < sz then 1
                 else if of_char (s ! 1) < lo \<or> hi < of_char (s ! 1) then 1
                 else if sz \<le> 2 then 2
                 else if of_char (s ! 2) < (0x80 :: nat) \<or> (0xBF :: nat) < of_char (s ! 2) then 1
                 else if sz \<le> 3 then 3
                 else if of_char (s ! 3) < (0x80 :: nat) \<or> (0xBF :: nat) < of_char (s ! 3) then 1
                 else 4)))"

lemma DecodeRuneInString_size_pos: "s \<noteq> [] \<Longrightarrow> 0 < DecodeRuneInString_size s"
  by (cases s) (simp_all add: DecodeRuneInString_size_def Let_def)

text \<open>\<open>utf8.RuneCountInString\<close>: the number of sequences, a malformed byte counting as one.\<close>

function RuneCountInString :: "string \<Rightarrow> nat" where
  "RuneCountInString s =
     (if s = [] then 0 else 1 + RuneCountInString (drop (DecodeRuneInString_size s) s))"
  by pat_completeness auto
termination
  by (relation "measure length") (auto simp: DecodeRuneInString_size_pos)

declare RuneCountInString.simps [simp del]

lemma Index_lower: "- 1 \<le> Index s substr"
  by (induction s) (auto simp: Let_def)

lemma Index_upper: "Index s substr \<le> int (length s)"
  by (induction s) (auto simp: Let_def)

text \<open>
  \<open>strings.Count\<close>: the number of non-overlapping instances of \<open>substr\<close>, found from
  left to right, and the number of UTF-8 sequences plus one for the empty \<open>substr\<close>.
\<close>

function Count :: "string \<Rightarrow> string \<Rightarrow> nat" where
  "Count s substr =
     (if substr = [] then RuneCountInString s + 1
      else (let i = Index s substr in
            if i = - 1 then 0
            else 1 + Count (drop (nat i + length substr) s) substr))"
  by pat_completeness auto
termination
proof (relation "measure (\<lambda>(s, substr). length s)", goal_cases)
  case 1
  show ?case by simp
next
  case (2 s substr i)
  from 2 Index_lower [of s substr] have "0 \<le> i" by simp
  moreover from 2 have "s \<noteq> []" by (cases s) auto
  ultimately show ?case using 2 by simp
qed

declare Count.simps [simp del]

text \<open>
  \<open>strings.Replace(s, old, new, n)\<close>. The loop runs \<open>n\<close> times (\<open>n\<close> is first set to
  the count when it is negative or larger); \<open>start\<close> is where the search resumes and
  \<open>b\<close> the builder. For the empty \<open>old\<close> a replacement goes before the first byte and
  after every UTF-8 sequence. The slice \<open>s[start:j]\<close> is \<open>take (j - start) (drop start s)\<close>.
\<close>

function Replace_loop ::
  "string \<Rightarrow> string \<Rightarrow> string \<Rightarrow> nat \<Rightarrow> nat \<Rightarrow> nat \<Rightarrow> string \<Rightarrow> string" where
  "Replace_loop s old new i n start b =
     (if i < n
      then
        (let j = (if old = []
                  then (if 0 < i then start + DecodeRuneInString_size (drop start s) else start)
                  else start + nat (Index (drop start s) old))
         in Replace_loop s old new (i + 1) n (j + length old)
              (b @ take (j - start) (drop start s) @ new))
      else b @ drop start s)"
  by pat_completeness auto
termination
  by (relation "measure (\<lambda>(s, old, new, i, n, start, b). n - i)") auto

declare Replace_loop.simps [simp del]

definition Replace :: "string \<Rightarrow> string \<Rightarrow> string \<Rightarrow> int \<Rightarrow> string" where
  "Replace s old new n =
     (if old = new \<or> n = 0 then s
      else
        (let m = Count s old in
         if m = 0 then s
         else Replace_loop s old new 0 (if n < 0 \<or> int m < n then m else nat n) 0 []))"

section \<open>ReplaceInFile and ReplaceRegexInFile\<close>

definition ReplaceInFile :: "world \<Rightarrow> path \<Rightarrow> string \<Rightarrow> string \<Rightarrow> error option \<times> world" where
  "ReplaceInFile w path old new =
     (case Stat w path of
        (Inl err, w1) \<Rightarrow> (Some err, w1)
      | (Inr info_Mode, w1) \<Rightarrow>
          (case ReadFile w1 path of
             (Inl err, w2) \<Rightarrow> (Some err, w2)
           | (Inr b, w2) \<Rightarrow>
               if \<not> Contains b old
               then (Some (errorString ''unable to find the content to be replaced''), w2)
               else (let s = Replace b old new (- 1) in WriteFile w2 path s info_Mode)))"

text \<open>
  Package \<open>regexp\<close> is not part of the repository. \<open>ReplaceRegexInFile\<close> takes its two
  functions as parameters: \<open>Compile\<close>, which returns the message of a syntax error or
  the compiled matcher, and \<open>ReplaceAllString matcher src repl\<close>. Every statement
  about \<open>ReplaceRegexInFile\<close> below holds for any such pair.
\<close>

definition ReplaceRegexInFile ::
  "(string \<Rightarrow> string + 'rx) \<Rightarrow> ('rx \<Rightarrow> string \<Rightarrow> string \<Rightarrow> string) \<Rightarrow>
   world \<Rightarrow> path \<Rightarrow> string \<Rightarrow> string \<Rightarrow> error option \<times> world" where
  "ReplaceRegexInFile Compile ReplaceAllString w path match replace =
     (case Compile match of
        Inl msg \<Rightarrow> (Some (SyntaxError msg), w)
      | Inr matcher \<Rightarrow>
          (case Stat w path of
             (Inl err, w1) \<Rightarrow> (Some err, w1)
           | (Inr info_Mode, w1) \<Rightarrow>
               (case ReadFile w1 path of
                  (Inl err, w2) \<Rightarrow> (Some err, w2)
                | (Inr b, w2) \<Rightarrow>
                    (let s = ReplaceAllString matcher b replace in
                     if s = b
                     then (Some (errorString ''unable to find the content to be replaced''), w2)
                     else WriteFile w2 path s info_Mode))))"

text \<open>
  A small matcher to run \<open>ReplaceRegexInFile\<close> on: it rejects the pattern \<open>(\<close>, as
  \<open>regexp.Compile\<close> does, and treats every other pattern as a literal (what a pattern
  without metacharacters is, with a template without \<open>$\<close>).
\<close>

definition literal_Compile :: "string \<Rightarrow> string + string" where
  "literal_Compile expr =
     (if expr = ''('' then Inl ''error parsing regexp: missing closing ): `(`''
      else Inr expr)"

definition literal_ReplaceAllString :: "string \<Rightarrow> string \<Rightarrow> string \<Rightarrow> string" where
  "literal_ReplaceAllString matcher src repl = Replace src matcher repl (- 1)"

section \<open>TestContext\<close>

text \<open>
  \<open>TestContext\<close> embeds kubebuilder's test context, of which the model keeps the
  fields this file reads. The two \<open>ManagedBySuite\<close> flags are fields of the struct
  itself.
\<close>

record kb_TestContext =
  Dir :: string
  BinaryName :: string
  ImageName :: string

record TestContext =
  kb :: kb_TestContext
  BundleImageName :: string
  ProjectName :: string
  isPrometheusManagedBySuite :: bool
  isOLMManagedBySuite :: bool

definition makeImageName :: "string \<Rightarrow> string" where
  "makeImageName projectName = ''quay.io/example/'' @ projectName @ '':v0.0.1''"

definition makeBundleImageName :: "string \<Rightarrow> string" where
  "makeBundleImageName projectName = ''quay.io/example/'' @ projectName @ ''-bundle:v0.0.1''"

text \<open>
  \<open>NewTestContext\<close>. Kubebuilder's constructor and the composition
  \<open>strings.ToLower(filepath.Base(dir))\<close> are parameters.
\<close>

definition NewTestContext ::
  "(string \<Rightarrow> string list \<Rightarrow> error + kb_TestContext) \<Rightarrow> (string \<Rightarrow> string) \<Rightarrow>
   string \<Rightarrow> string list \<Rightarrow> error + TestContext" where
  "NewTestContext kbNewTestContext lowerBase binaryName env =
     (case kbNewTestContext binaryName env of
        Inl err \<Rightarrow> Inl err
      | Inr k \<Rightarrow>
          (let projectName = lowerBase (Dir k) in
           Inr \<lparr>kb = k\<lparr>ImageName := makeImageName projectName\<rparr>,
                BundleImageName = makeBundleImageName projectName,
                ProjectName = projectName,
                isPrometheusManagedBySuite = True,
                isOLMManagedBySuite = True\<rparr>))"

text \<open>
  \<open>filepath.Join(dir, name)\<close> for a directory that is already clean, as \<open>tc.Dir\<close> (made
  by \<open>filepath.Abs\<close>) is, and a plain file name.
\<close>

definition Join :: "string \<Rightarrow> string \<Rightarrow> path" where
  "Join dir name =
     (if dir = [] then name
      else if last dir = CHR ''/'' then dir @ name
      else dir @ ''/'' @ name)"

definition multiGroup :: string where
  "multiGroup = ''multigroup: true'' @ [newline]"

definition AllowProjectBeMultiGroup :: "TestContext \<Rightarrow> world \<Rightarrow> error option \<times> world" where
  "AllowProjectBeMultiGroup tc w =
     (case ReadFile w (Join (Dir (kb tc)) ''PROJECT'') of
        (Inl err, w1) \<Rightarrow> (Some err, w1)
      | (Inr projectBytes, w1) \<Rightarrow>
          WriteFile w1 (Join (Dir (kb tc)) ''PROJECT'') (multiGroup @ projectBytes) 0x1A4)"

section \<open>Prerequisites on the cluster\<close>

text \<open>
  The cluster tooling is outside this file. The model keeps what
  \<open>kubectl api-resources\<close> returns, which external commands fail, and the list of the
  commands run. A failed \<open>Expect\<close> aborts the test: \<open>Aborted\<close>. \<open>By\<close> only reports
  progress. \<open>Eventually\<close> polls \<open>kubectl get Service prometheus-operator\<close>; the model
  takes its verdict from the cluster.
\<close>

datatype command =
  KubectlApiResources
| InstallPrometheusOperManager
| KubectlGetPrometheusService
| InstallOLMVersion string
| UninstallPrometheusOperManager
| UninstallOLM

record cluster =
  api_resources :: "error + string"
  fails :: "command \<Rightarrow> bool"
  executed :: "command list"

datatype outcome = Completed | Aborted

definition run_command :: "cluster \<Rightarrow> command \<Rightarrow> bool \<times> cluster" where
  "run_command cl c = (\<not> fails cl c, cl\<lparr>executed := executed cl @ [c]\<rparr>)"

text \<open>
  \<open>InstallPrerequisites\<close> has a value receiver: \<open>tc\<close> is the method's own copy of the
  caller's struct, so the assignments to the two flags change the copy, and the
  method hands back nothing but its effect on the cluster. \<open>OlmVersionForTestSuite\<close>
  is a constant declared elsewhere; it is the parameter \<open>olmVersion\<close>.
\<close>

definition InstallPrerequisites :: "string \<Rightarrow> TestContext \<Rightarrow> cluster \<Rightarrow> outcome \<times> cluster" where
  "InstallPrerequisites olmVersion tc cl =
     (let cl1 = cl\<lparr>executed := executed cl @ [KubectlApiResources]\<rparr> in
      case api_resources cl of
        Inl err \<Rightarrow> (Aborted, cl1)
      | Inr output \<Rightarrow>
          (let tc1 = (if Contains output ''servicemonitors''
                      then tc\<lparr>isPrometheusManagedBySuite := False\<rparr> else tc);
               tc2 = (if Contains output ''clusterserviceversions''
                      then tc1\<lparr>isOLMManagedBySuite := False\<rparr> else tc1);
               prom =
                 (if isPrometheusManagedBySuite tc2
                  then (case run_command cl1 InstallPrometheusOperManager of
                          (False, cl2) \<Rightarrow> (Aborted, cl2)
                        | (True, cl2) \<Rightarrow>
                            (case run_command cl2 KubectlGetPrometheusService of
                               (False, cl3) \<Rightarrow> (Aborted, cl3)
                             | (True, cl3) \<Rightarrow> (Completed, cl3)))
                  else (Completed, cl1))
           in case prom of
                (Aborted, cl4) \<Rightarrow> (Aborted, cl4)
              | (Completed, cl4) \<Rightarrow>
                  if isOLMManagedBySuite tc2
                  then (case run_command cl4 (InstallOLMVersion olmVersion) of
                          (False, cl5) \<Rightarrow> (Aborted, cl5)
                        | (True, cl5) \<Rightarrow> (Completed, cl5))
                  else (Completed, cl4)))"

text \<open>
  \<open>UninstallPrerequisites\<close> reads the flags of the struct it is called on. The two
  uninstallers only log a warning when their command fails.
\<close>

definition UninstallPrerequisites :: "TestContext \<Rightarrow> cluster \<Rightarrow> cluster" where
  "UninstallPrerequisites tc cl =
     (let cl1 = (if isPrometheusManagedBySuite tc
                 then snd (run_command cl UninstallPrometheusOperManager) else cl)
      in if isOLMManagedBySuite tc then snd (run_command cl1 UninstallOLM) else cl1)"

text \<open>
  A test run: the suite makes its context with \<open>NewTestContext\<close>, calls
  \<open>tc.InstallPrerequisites()\<close> before the tests and \<open>tc.UninstallPrerequisites()\<close>
  after them, on the same variable \<open>tc\<close>. The result is the list of commands the
  cluster has seen.
\<close>

definition prerequisites_run ::
  "(string \<Rightarrow> string list \<Rightarrow> error + kb_TestContext) \<Rightarrow> (string \<Rightarrow> string) \<Rightarrow>
   string \<Rightarrow> string \<Rightarrow> string list \<Rightarrow> cluster \<Rightarrow> command list" where
  "prerequisites_run kbNewTestContext lowerBase olmVersion binaryName env cl =
     (case NewTestContext kbNewTestContext lowerBase binaryName env of
        Inl err \<Rightarrow> executed cl
      | Inr tc \<Rightarrow>
          (case InstallPrerequisites olmVersion tc cl of
             (out, cl1) \<Rightarrow> executed (UninstallPrerequisites tc cl1)))"

section \<open>Notions the claims are stated in\<close>

text \<open>
  A block occurs verbatim in a content when the content is some bytes, the block,
  and some more bytes; it occurs at offset \<open>i\<close> when the bytes from \<open>i\<close> on begin
  with it; its first occurrence is the one with no occurrence at a smaller offset.
\<close>

definition occurs :: "string \<Rightarrow> string \<Rightarrow> bool" where
  "occurs t c = (\<exists>p q. c = p @ t @ q)"

definition occurs_at :: "string \<Rightarrow> string \<Rightarrow> nat \<Rightarrow> bool" where
  "occurs_at t c i = (i + length t \<le> length c \<and> take (length t) (drop i c) = t)"

definition first_occurrence :: "string \<Rightarrow> string \<Rightarrow> nat \<Rightarrow> bool" where
  "first_occurrence t c i = (occurs_at t c i \<and> (\<forall>j<i. \<not> occurs_at t c j))"

text \<open>
  What \<open>UncommentCode\<close> leaves in the place of the target: the lines its loop wrote,
  or the target itself when the first \<open>Scan\<close> fails and nothing is written.
\<close>

definition uncomment_block :: "string \<Rightarrow> string \<Rightarrow> string" where
  "uncomment_block target prefix =
     (case Scan target of
        None \<Rightarrow> target
      | Some (text, rest) \<Rightarrow> uncomment_loop [] text prefix rest)"

text \<open>
  "The content with every occurrence of \<open>old\<close> replaced by \<open>new\<close>", for a non-empty
  \<open>old\<close>, read from left to right: where \<open>old\<close> does not occur nothing changes;
  otherwise the content is \<open>p\<close>, \<open>old\<close> and a rest, with no occurrence of \<open>old\<close>
  beginning inside \<open>p\<close>, and the result is \<open>p\<close>, \<open>new\<close> and the rest with every
  occurrence replaced.
\<close>

inductive replaced_all :: "string \<Rightarrow> string \<Rightarrow> string \<Rightarrow> string \<Rightarrow> bool"
  for old new :: string where
  no_more: "\<not> occurs old s \<Longrightarrow> replaced_all old new s s"
| leftmost: "\<not> occurs old (p @ butlast old) \<Longrightarrow> replaced_all old new rest r \<Longrightarrow>
     replaced_all old new (p @ old @ rest) (p @ new @ r)"

text \<open>The UTF-8 sequences of a string, a malformed byte being a sequence of its own.\<close>

function utf8_sequences :: "string \<Rightarrow> string list" where
  "utf8_sequences s =
     (if s = [] then []
      else take (DecodeRuneInString_size s) s #
           utf8_sequences (drop (DecodeRuneInString_size s) s))"
  by pat_completeness auto
termination
  by (relation "measure length") (auto simp: DecodeRuneInString_size_pos)

declare utf8_sequences.simps [simp del]

text \<open>
  \<open>old\<close> and \<open>new\<close> overlap when one occurs in the other, or a non-empty end of one
  is a beginning of the other. (The empty string occurs in every string.)
\<close>

definition overlapping :: "string \<Rightarrow> string \<Rightarrow> bool" where
  "overlapping old new =
     (occurs old new \<or> occurs new old \<or>
      (\<exists>a x b. x \<noteq> [] \<and> old = a @ x \<and> new = x @ b) \<or>
      (\<exists>a x b. x \<noteq> [] \<and> old = x @ b \<and> new = a @ x))"

text \<open>
  A block of text as its lines: \<open>split_lines\<close> cuts at every newline, \<open>join_lines\<close>
  puts the newlines back. Uncommenting a block strips the prefix from the start of
  each of its lines. A plain block is not empty, does not end in a newline, and has no
  line that ends in a carriage return or is as long as the scanner's buffer.
\<close>

fun split_lines :: "string \<Rightarrow> string list" where
  "split_lines [] = [[]]"
| "split_lines (c # s) =
     (if c = newline then [] # split_lines s
      else (c # hd (split_lines s)) # tl (split_lines s))"

fun join_lines :: "string list \<Rightarrow> string" where
  "join_lines [] = []"
| "join_lines [l] = l"
| "join_lines (l # m # ls) = l @ [newline] @ join_lines (m # ls)"








text \<open>A world with one file, readable and writable, and no call made yet.\<close>

definition one_file :: "path \<Rightarrow> string \<Rightarrow> FileMode \<Rightarrow> world" where
  "one_file p c m =
     \<lparr>files = [p \<mapsto> \<lparr>content = c, mode = m, readable = True, write_access = Granted\<rparr>],
      trace = []\<rparr>"

text \<open>A test context whose directory is \<open>/tmp/e2e\<close>.\<close>

definition example_tc :: TestContext where
  "example_tc =
     \<lparr>kb = \<lparr>Dir = ''/tmp/e2e'', BinaryName = ''operator-sdk'',
             ImageName = ''quay.io/example/e2e:v0.0.1''\<rparr>,
      BundleImageName = ''quay.io/example/e2e-bundle:v0.0.1'',
      ProjectName = ''e2e'',
      isPrometheusManagedBySuite = True,
      isOLMManagedBySuite = True\<rparr>"

section \<open>Lemmas: the file system\<close>

lemma files_log_event [simp]: "files (log_event w e) = files w"
  by (simp add: log_event_def)

lemma trace_log_event [simp]: "trace (log_event w e) = trace w @ [e]"
  by (simp add: log_event_def)

lemma ReadFile_ok:
  "files w p = Some f \<Longrightarrow> readable f \<Longrightarrow> ReadFile w p = (Inr (content f), w\<lparr>trace := trace w @ [EvRead p]\<rparr>)"
  by (simp add: ReadFile_def log_event_def)

lemma Stat_ok:
  "files w p = Some f \<Longrightarrow> Stat w p = (Inr (mode f), w\<lparr>trace := trace w @ [EvStat p]\<rparr>)"
  by (simp add: Stat_def log_event_def)

lemma WriteFile_ok:
  "files w p = Some f \<Longrightarrow> writable f \<Longrightarrow>
   WriteFile w p d perm =
     (None, w\<lparr>files := (files w)(p \<mapsto> f\<lparr>content := d\<rparr>), trace := trace w @ [EvWrite p d perm]\<rparr>)"
  by (simp add: WriteFile_def writable_def log_event_def Let_def)

section \<open>Lemmas: Index finds the first occurrence\<close>

lemma HasPrefix_iff: "HasPrefix s p \<longleftrightarrow> (\<exists>q. s = p @ q)"
  unfolding HasPrefix_def
  by (metis append_eq_conv_conj append_take_drop_id length_append le_add1)

lemma Index_split:
  "0 \<le> Index s t \<Longrightarrow> s = take (nat (Index s t)) s @ t @ drop (nat (Index s t) + length t) s"
proof (induction s)
  case Nil
  then show ?case by (simp split: if_splits)
next
  case (Cons c s)
  show ?case
  proof (cases "HasPrefix (c # s) t")
    case True
    then obtain q where q: "c # s = t @ q" by (auto simp: HasPrefix_iff)
    from True have "Index (c # s) t = 0" by simp
    with q show ?thesis by simp
  next
    case False
    with Cons.prems have nn: "0 \<le> Index s t" and eq: "Index (c # s) t = Index s t + 1"
      by (auto simp: Let_def split: if_splits)
    from Cons.IH [OF nn] eq nn show ?thesis
      by (simp add: nat_add_distrib)
  qed
qed

lemma Index_least:
  "0 \<le> Index s t \<Longrightarrow> j < nat (Index s t) \<Longrightarrow> \<not> HasPrefix (drop j s) t"
proof (induction s arbitrary: j)
  case Nil
  then show ?case by (simp split: if_splits)
next
  case (Cons c s)
  show ?case
  proof (cases "HasPrefix (c # s) t")
    case True
    with Cons.prems show ?thesis by simp
  next
    case False
    with Cons.prems have nn: "0 \<le> Index s t" and eq: "Index (c # s) t = Index s t + 1"
      by (auto simp: Let_def split: if_splits)
    show ?thesis
    proof (cases j)
      case 0
      with False show ?thesis by simp
    next
      case (Suc k)
      with Cons.prems eq nn have "k < nat (Index s t)" by simp
      from Cons.IH [OF nn this] Suc show ?thesis by simp
    qed
  qed
qed

lemma Index_neg_no_prefix: "Index s t < 0 \<Longrightarrow> \<not> HasPrefix (drop j s) t"
proof (induction s arbitrary: j)
  case Nil
  then show ?case by (simp add: HasPrefix_def split: if_splits)
next
  case (Cons c s)
  then have np: "\<not> HasPrefix (c # s) t" and neg: "Index s t < 0"
    by (auto simp: Let_def split: if_splits)
  show ?case
  proof (cases j)
    case 0
    with np show ?thesis by simp
  next
    case (Suc k)
    with Cons.IH [OF neg] show ?thesis by simp
  qed
qed

lemma Index_neg_iff: "Index s t < 0 \<longleftrightarrow> \<not> occurs t s"
proof
  assume neg: "Index s t < 0"
  show "\<not> occurs t s"
  proof
    assume "occurs t s"
    then obtain p q where "s = p @ t @ q" by (auto simp: occurs_def)
    then have "HasPrefix (drop (length p) s) t" by (simp add: HasPrefix_iff)
    with Index_neg_no_prefix [OF neg] show False by blast
  qed
next
  assume no: "\<not> occurs t s"
  show "Index s t < 0"
  proof (rule ccontr)
    assume "\<not> Index s t < 0"
    then have "0 \<le> Index s t" by simp
    from Index_split [OF this] have "occurs t s" unfolding occurs_def by blast
    with no show False by contradiction
  qed
qed

lemma Contains_iff: "Contains s t \<longleftrightarrow> occurs t s"
  using Index_neg_iff [of s t] by (auto simp: Contains_def)

lemma uncomment_loop_out:
  "uncomment_loop out tok pre rest = out @ uncomment_loop [] tok pre rest"
proof (induction "length rest" arbitrary: out tok rest rule: less_induct)
  case less
  show ?case
  proof (cases "Scan rest")
    case None
    then show ?thesis by (simp add: uncomment_loop.simps [of _ tok pre rest])
  next
    case (Some a)
    obtain tok' rest' where a: "a = (tok', rest')" by (cases a)
    with Some have "length rest' < length rest" by (auto dest: Scan_shorter)
    note IH = less [OF this]
    show ?thesis
      using Some a IH [of "out @ TrimPrefix tok pre @ [newline]" tok']
        IH [of "TrimPrefix tok pre @ [newline]" tok']
      by (simp add: uncomment_loop.simps [of _ tok pre rest])
  qed
qed

lemma occurs_at_HasPrefix: "occurs_at t c i \<longleftrightarrow> i \<le> length c \<and> HasPrefix (drop i c) t"
  by (auto simp: occurs_at_def HasPrefix_def)

lemma Index_first_occurrence:
  assumes "0 \<le> Index c t"
  shows "first_occurrence t c (nat (Index c t))"
proof -
  let ?i = "nat (Index c t)"
  from Index_split [OF assms] have eq: "c = take ?i c @ t @ drop (?i + length t) c" .
  have le: "?i \<le> length c" using Index_upper [of c t] assms by simp
  have "drop ?i c = t @ drop (?i + length t) c"
    using eq le by (metis append_eq_conv_conj length_take min.absorb2)
  then have "HasPrefix (drop ?i c) t" by (simp add: HasPrefix_iff)
  with le have "occurs_at t c ?i" by (simp add: occurs_at_HasPrefix)
  moreover have "\<forall>j<?i. \<not> occurs_at t c j"
    using Index_least [OF assms] by (simp add: occurs_at_HasPrefix)
  ultimately show ?thesis by (simp add: first_occurrence_def)
qed

lemma first_occurrence_unique:
  "first_occurrence t c i \<Longrightarrow> first_occurrence t c j \<Longrightarrow> i = j"
  unfolding first_occurrence_def by (meson nat_neq_iff)

lemma first_occurrence_Index:
  assumes "first_occurrence t c i"
  shows "Index c t = int i"
proof -
  from assms have "occurs_at t c i" by (simp add: first_occurrence_def)
  then have "c = take i c @ t @ drop (i + length t) c"
    unfolding occurs_at_def
    by (metis add.commute append_take_drop_id drop_drop)
  then have "occurs t c" unfolding occurs_def by blast
  then have nn: "0 \<le> Index c t" using Index_neg_iff [of c t] by auto
  from first_occurrence_unique [OF Index_first_occurrence [OF nn] assms] nn
  show ?thesis by simp
qed

lemma UncommentCode_found:
  assumes f: "files w filename = Some f" and r: "readable f" and wr: "writable f"
    and i: "Index (content f) target = int i"
  shows "UncommentCode w filename target prefix =
     (None,
      if Scan target = None then w\<lparr>trace := trace w @ [EvRead filename]\<rparr>
      else w\<lparr>files := (files w)(filename \<mapsto> f\<lparr>content :=
                 take i (content f) @ uncomment_block target prefix @
                 drop (i + length target) (content f)\<rparr>),
             trace := trace w @ [EvRead filename,
               EvWrite filename
                 (take i (content f) @ uncomment_block target prefix @
                  drop (i + length target) (content f)) 0x1A4]\<rparr>)"
proof (cases "Scan target")
  case None
  then show ?thesis using i by (simp add: UncommentCode_def ReadFile_ok f r)
next
  case (Some a)
  obtain tok rest where a: "a = (tok, rest)" by (cases a)
  show ?thesis
    using Some a i uncomment_loop_out [of "take i (content f)" tok prefix rest]
    by (simp add: UncommentCode_def ReadFile_ok WriteFile_ok f r wr Let_def uncomment_block_def)
qed

section \<open>Lemmas: strings.Replace replaces every occurrence\<close>

lemma Index_neg_eq: "Index s t < 0 \<longleftrightarrow> Index s t = - 1"
  using Index_lower [of s t] by auto

lemma Index_leftmost:
  assumes nn: "0 \<le> Index s old" and ne: "old \<noteq> []"
  shows "\<not> occurs old (take (nat (Index s old)) s @ butlast old)"
proof
  let ?i = "nat (Index s old)"
  assume "occurs old (take ?i s @ butlast old)"
  then obtain a b where ab: "take ?i s @ butlast old = a @ old @ b"
    by (auto simp: occurs_def)
  have le: "?i \<le> length s" using Index_upper [of s old] nn by simp
  from ab have "length (take ?i s @ butlast old) = length (a @ old @ b)" by simp
  then have "?i + (length old - 1) = length a + length old + length b"
    using le by simp
  moreover from ne have "0 < length old" by simp
  ultimately have lt: "length a < ?i" by linarith
  from Index_split [OF nn] have "s = take ?i s @ (butlast old @ [last old]) @ drop (?i + length old) s"
    using ne by simp
  then have "s = (take ?i s @ butlast old) @ [last old] @ drop (?i + length old) s"
    by simp
  with ab have "s = a @ old @ (b @ [last old] @ drop (?i + length old) s)" by simp
  then have "HasPrefix (drop (length a) s) old"
    by (metis HasPrefix_iff append_eq_conv_conj)
  with Index_least [OF nn lt] show False by contradiction
qed


lemma Count_zero:
  "old \<noteq> [] \<Longrightarrow> Count s old = 0 \<longleftrightarrow> Index s old = - 1"
  by (subst Count.simps) (simp add: Let_def)

lemma Count_step:
  "old \<noteq> [] \<Longrightarrow> Index s old \<noteq> - 1 \<Longrightarrow>
   Count s old = Suc (Count (drop (nat (Index s old) + length old) s) old)"
  by (subst Count.simps) (simp add: Let_def)

lemma Replace_loop_replaced_all:
  assumes ne: "old \<noteq> []"
  shows "n - i = Count (drop start s) old \<Longrightarrow> i \<le> n \<Longrightarrow>
    \<exists>r. Replace_loop s old new i n start b = b @ r \<and> replaced_all old new (drop start s) r"
proof (induction "n - i" arbitrary: i start b)
  case 0
  then have "Count (drop start s) old = 0" by simp
  with ne have "Index (drop start s) old = - 1" by (simp add: Count_zero)
  then have "\<not> occurs old (drop start s)" using Index_neg_iff [of "drop start s" old] by simp
  then have "replaced_all old new (drop start s) (drop start s)" by (rule no_more)
  moreover from 0 have "Replace_loop s old new i n start b = b @ drop start s"
    by (subst Replace_loop.simps) simp
  ultimately show ?case by blast
next
  case (Suc k)
  let ?d = "drop start s"
  let ?x = "nat (Index ?d old)"
  from Suc have cnt: "Count ?d old = Suc k" and lt: "i < n" by simp_all
  with ne have idx: "Index ?d old \<noteq> - 1" using Count_zero [OF ne, of ?d] by auto
  then have nn: "0 \<le> Index ?d old" using Index_lower [of ?d old] by simp
  from Count_step [OF ne idx] cnt have k: "k = Count (drop (?x + length old) ?d) old" by simp
  have dd: "drop (?x + length old) ?d = drop (start + ?x + length old) s"
    by (simp add: add.commute add.left_commute)
  have "k = n - (i + 1)" using Suc by simp
  moreover have "n - (i + 1) = Count (drop (start + ?x + length old) s) old"
    using k dd Suc by simp
  moreover have "i + 1 \<le> n" using lt by simp
  ultimately obtain r where
    r: "Replace_loop s old new (i + 1) n (start + ?x + length old) (b @ take ?x ?d @ new) =
          (b @ take ?x ?d @ new) @ r"
    and ra: "replaced_all old new (drop (start + ?x + length old) s) r"
    using Suc.hyps(1) [of "i + 1" "start + ?x + length old" "b @ take ?x ?d @ new"] by blast
  have unfold: "Replace_loop s old new i n start b =
      Replace_loop s old new (i + 1) n (start + ?x + length old) (b @ take ?x ?d @ new)"
    using lt ne by (subst Replace_loop.simps) (simp add: Let_def)
  have "replaced_all old new (take ?x ?d @ old @ drop (?x + length old) ?d)
          (take ?x ?d @ new @ r)"
    using Index_leftmost [OF nn ne] ra dd by (intro leftmost) simp_all
  with Index_split [OF nn] have "replaced_all old new ?d (take ?x ?d @ new @ r)" by simp
  with unfold r show ?case by simp
qed

lemma replaced_all_same:
  assumes ne: "old \<noteq> []"
  shows "replaced_all old old s s"
proof (induction "length s" arbitrary: s rule: less_induct)
  case less
  show ?case
  proof (cases "Index s old < 0")
    case True
    then have "\<not> occurs old s" by (simp add: Index_neg_iff)
    then show ?thesis by (rule no_more)
  next
    case False
    then have nn: "0 \<le> Index s old" by simp
    let ?x = "nat (Index s old)"
    have "s \<noteq> []" using nn ne by (cases s) auto
    with ne have "length (drop (?x + length old) s) < length s" by simp
    from less [OF this] have "replaced_all old old (drop (?x + length old) s) (drop (?x + length old) s)" .
    with Index_leftmost [OF nn ne]
    have "replaced_all old old (take ?x s @ old @ drop (?x + length old) s)
            (take ?x s @ old @ drop (?x + length old) s)"
      by (rule leftmost)
    with Index_split [OF nn] show ?thesis by simp
  qed
qed

lemma Replace_replaced_all:
  assumes ne: "old \<noteq> []"
  shows "replaced_all old new s (Replace s old new (- 1))"
proof (cases "old = new")
  case True
  with replaced_all_same [OF ne] show ?thesis by (simp add: Replace_def)
next
  case False
  show ?thesis
  proof (cases "Count s old = 0")
    case True
    with ne have "Index s old = - 1" by (simp add: Count_zero)
    then have "\<not> occurs old s" using Index_neg_iff [of s old] by simp
    then have "replaced_all old new s s" by (rule no_more)
    with True False show ?thesis by (simp add: Replace_def)
  next
    case nz: False
    from Replace_loop_replaced_all [OF ne, of "Count s old" 0 0 s new "[]"]
    obtain r where "Replace_loop s old new 0 (Count s old) 0 [] = r" and "replaced_all old new s r"
      by auto
    with False nz show ?thesis by (simp add: Replace_def)
  qed
qed


lemma occurs_append_left: "occurs m xs \<Longrightarrow> occurs m (xs @ ys)"
  unfolding occurs_def by (metis append.assoc)

lemma concat_utf8_sequences: "concat (utf8_sequences s) = s"
proof (induction s rule: utf8_sequences.induct)
  case (1 s)
  show ?case
  proof (cases "s = []")
    case True
    then show ?thesis by (subst utf8_sequences.simps) simp
  next
    case False
    with "1" show ?thesis by (subst utf8_sequences.simps) simp
  qed
qed

lemma RuneCountInString_zero: "RuneCountInString s = 0 \<longleftrightarrow> s = []"
  by (subst RuneCountInString.simps) simp

lemma Replace_loop_empty_old:
  "0 < i \<Longrightarrow> n - i = RuneCountInString (drop start s) \<Longrightarrow> i \<le> n \<Longrightarrow>
   Replace_loop s [] new i n start b =
     b @ concat (map (\<lambda>r. r @ new) (utf8_sequences (drop start s)))"
proof (induction "n - i" arbitrary: i start b)
  case 0
  then have "RuneCountInString (drop start s) = 0" by simp
  then have e: "drop start s = []" by (simp add: RuneCountInString_zero)
  from 0 have "Replace_loop s [] new i n start b = b @ drop start s"
    by (subst Replace_loop.simps) simp
  with e show ?case by (simp add: utf8_sequences.simps [of "[]"])
next
  case (Suc k)
  let ?d = "drop start s"
  let ?z = "DecodeRuneInString_size ?d"
  from Suc have rc: "RuneCountInString ?d = Suc k" and lt: "i < n" by simp_all
  then have dne: "?d \<noteq> []" using RuneCountInString_zero [of ?d] by auto
  with rc have k: "k = RuneCountInString (drop ?z ?d)"
    by (subst (asm) RuneCountInString.simps) simp
  have dd: "drop ?z ?d = drop (start + ?z) s" by (simp add: add.commute)
  have "Replace_loop s [] new i n start b =
      Replace_loop s [] new (i + 1) n (start + ?z) (b @ take ?z ?d @ new)"
    using lt Suc.prems(1) by (subst Replace_loop.simps) (simp add: Let_def)
  also have "\<dots> = (b @ take ?z ?d @ new) @
      concat (map (\<lambda>r. r @ new) (utf8_sequences (drop (start + ?z) s)))"
  proof (rule Suc.hyps(1))
    show "k = n - (i + 1)" using Suc by simp
    show "0 < i + 1" by simp
    show "n - (i + 1) = RuneCountInString (drop (start + ?z) s)" using k dd Suc by simp
    show "i + 1 \<le> n" using lt by simp
  qed
  also have "\<dots> = b @ concat (map (\<lambda>r. r @ new) (utf8_sequences ?d))"
    using dne dd by (subst (2) utf8_sequences.simps) simp
  finally show ?case .
qed

lemma Replace_empty_old:
  "Replace s [] new (- 1) = new @ concat (map (\<lambda>r. r @ new) (utf8_sequences s))"
proof (cases "new = []")
  case True
  then show ?thesis by (simp add: Replace_def concat_utf8_sequences)
next
  case False
  have c: "Count s [] = RuneCountInString s + 1" by (subst Count.simps) simp
  have "Replace_loop s [] new 0 (RuneCountInString s + 1) 0 [] =
        Replace_loop s [] new 1 (RuneCountInString s + 1) 0 new"
    by (subst Replace_loop.simps) simp
  also have "\<dots> = new @ concat (map (\<lambda>r. r @ new) (utf8_sequences (drop 0 s)))"
    by (rule Replace_loop_empty_old) simp_all
  finally show ?thesis using False c by (simp add: Replace_def)
qed

section \<open>Lemmas: no occurrence remains without an overlap\<close>

lemma occurs_between:
  assumes occ: "occurs m (xs @ ys @ zs)" and no: "\<not> overlapping m ys"
  shows "occurs m xs \<or> occurs m zs"
proof -
  from no have n1: "\<not> occurs m ys" and n2: "\<not> occurs ys m"
    and n3: "\<And>a x b. x \<noteq> [] \<Longrightarrow> m = a @ x \<Longrightarrow> ys = x @ b \<Longrightarrow> False"
    and n4: "\<And>a x b. x \<noteq> [] \<Longrightarrow> m = x @ b \<Longrightarrow> ys = a @ x \<Longrightarrow> False"
    unfolding overlapping_def by blast+
  from occ obtain a b where eq: "xs @ ys @ zs = a @ m @ b" by (auto simp: occurs_def)
  from eq [unfolded append_eq_append_conv2 [of xs "ys @ zs" a "m @ b"]]
  obtain us where "(xs = a @ us \<and> us @ ys @ zs = m @ b) \<or> (xs @ us = a \<and> ys @ zs = us @ m @ b)"
    by auto
  then show ?thesis
  proof
    assume c1: "xs = a @ us \<and> us @ ys @ zs = m @ b"
    then have "us @ (ys @ zs) = m @ b" by simp
    from this [unfolded append_eq_append_conv2 [of us "ys @ zs" m b]]
    obtain vs where "(us = m @ vs \<and> vs @ ys @ zs = b) \<or> (us @ vs = m \<and> ys @ zs = vs @ b)"
      by auto
    then show ?thesis
    proof
      assume "us = m @ vs \<and> vs @ ys @ zs = b"
      with c1 have "xs = a @ m @ vs" by simp
      then show ?thesis unfolding occurs_def by blast
    next
      assume c2: "us @ vs = m \<and> ys @ zs = vs @ b"
      show ?thesis
      proof (cases "vs = []")
        case True
        with c1 c2 have "xs = a @ m @ []" by simp
        then show ?thesis unfolding occurs_def by blast
      next
        case False
        from c2 have "ys @ zs = vs @ b" by simp
        from this [unfolded append_eq_append_conv2 [of ys zs vs b]]
        obtain ts where "(ys = vs @ ts \<and> ts @ zs = b) \<or> (ys @ ts = vs \<and> zs = ts @ b)"
          by auto
        then show ?thesis
        proof
          assume "ys = vs @ ts \<and> ts @ zs = b"
          with n3 [of vs us ts] False c2 show ?thesis by auto
        next
          assume "ys @ ts = vs \<and> zs = ts @ b"
          with c2 have "m = us @ ys @ ts" by auto
          then have "occurs ys m" unfolding occurs_def by blast
          with n2 show ?thesis by contradiction
        qed
      qed
    qed
  next
    assume c1: "xs @ us = a \<and> ys @ zs = us @ m @ b"
    then have "ys @ zs = us @ (m @ b)" by simp
    from this [unfolded append_eq_append_conv2 [of ys zs us "m @ b"]]
    obtain vs where "(ys = us @ vs \<and> vs @ zs = m @ b) \<or> (ys @ vs = us \<and> zs = vs @ m @ b)"
      by auto
    then show ?thesis
    proof
      assume c2: "ys = us @ vs \<and> vs @ zs = m @ b"
      show ?thesis
      proof (cases "vs = []")
        case True
        with c2 have "zs = [] @ m @ b" by simp
        then show ?thesis unfolding occurs_def by blast
      next
        case False
        from c2 have "vs @ zs = m @ b" by simp
        from this [unfolded append_eq_append_conv2 [of vs zs m b]]
        obtain ts where "(vs = m @ ts \<and> ts @ zs = b) \<or> (vs @ ts = m \<and> zs = ts @ b)"
          by auto
        then show ?thesis
        proof
          assume "vs = m @ ts \<and> ts @ zs = b"
          with c2 have "ys = us @ m @ ts" by simp
          then have "occurs m ys" unfolding occurs_def by blast
          with n1 show ?thesis by contradiction
        next
          assume "vs @ ts = m \<and> zs = ts @ b"
          with n4 [of vs ts us] False c2 show ?thesis by auto
        qed
      qed
    next
      assume "ys @ vs = us \<and> zs = vs @ m @ b"
      then show ?thesis unfolding occurs_def by blast
    qed
  qed
qed

lemma replaced_all_no_overlap:
  assumes "replaced_all old new s r" and "\<not> overlapping old new"
  shows "\<not> occurs old r"
  using assms
proof (induction rule: replaced_all.induct)
  case (no_more s)
  then show ?case by simp
next
  case (leftmost p rest r)
  show ?case
  proof
    assume "occurs old (p @ new @ r)"
    from occurs_between [OF this leftmost.prems]
    show False
    proof
      assume "occurs old p"
      then have "occurs old (p @ butlast old)" by (rule occurs_append_left)
      with leftmost.hyps(1) show False by contradiction
    next
      assume "occurs old r"
      with leftmost.IH [OF leftmost.prems] show False by contradiction
    qed
  qed
qed

lemma overlapping_code:
  "overlapping old new \<longleftrightarrow>
     Contains new old \<or> Contains old new \<or>
     list_ex (\<lambda>k. HasPrefix new (drop k old)) [0..<length old] \<or>
     list_ex (\<lambda>k. HasPrefix old (drop k new)) [0..<length new]"
proof -
  have A: "(\<exists>a x b. x \<noteq> [] \<and> o1 = a @ x \<and> o2 = x @ b) \<longleftrightarrow>
        list_ex (\<lambda>k. HasPrefix o2 (drop k o1)) [0..<length o1]" for o1 o2 :: string
  proof
    assume "\<exists>a x b. x \<noteq> [] \<and> o1 = a @ x \<and> o2 = x @ b"
    then obtain a x b where x: "x \<noteq> []" "o1 = a @ x" "o2 = x @ b" by blast
    then have "length a < length o1" and "HasPrefix o2 (drop (length a) o1)"
      by (simp_all add: HasPrefix_iff)
    then show "list_ex (\<lambda>k. HasPrefix o2 (drop k o1)) [0..<length o1]"
      unfolding list_ex_iff by auto
  next
    assume "list_ex (\<lambda>k. HasPrefix o2 (drop k o1)) [0..<length o1]"
    then obtain k where k: "k < length o1" "HasPrefix o2 (drop k o1)"
      unfolding list_ex_iff by auto
    then obtain b where "o2 = drop k o1 @ b" by (auto simp: HasPrefix_iff)
    moreover have "o1 = take k o1 @ drop k o1" by simp
    moreover from k have "drop k o1 \<noteq> []" by simp
    ultimately show "\<exists>a x b. x \<noteq> [] \<and> o1 = a @ x \<and> o2 = x @ b" by blast
  qed
  have B: "(\<exists>a x b. x \<noteq> [] \<and> old = x @ b \<and> new = a @ x) \<longleftrightarrow>
           (\<exists>a x b. x \<noteq> [] \<and> new = a @ x \<and> old = x @ b)" by blast
  show ?thesis
    unfolding overlapping_def B A [of old new] A [of new old] Contains_iff ..
qed

lemma disjoint_not_overlapping:
  assumes "old \<noteq> []" "new \<noteq> []" "set old \<inter> set new = {}"
  shows "\<not> overlapping old new"
proof
  assume "overlapping old new"
  then consider "occurs old new" | "occurs new old"
    | a x b where "x \<noteq> []" "old = a @ x" "new = x @ b"
    | a x b where "x \<noteq> []" "old = x @ b" "new = a @ x"
    unfolding overlapping_def by blast
  then show False
  proof cases
    case 1
    then obtain p q where "new = p @ old @ q" by (auto simp: occurs_def)
    then have "set old \<subseteq> set new" by auto
    with assms show False by (cases old) auto
  next
    case 2
    then obtain p q where "old = p @ new @ q" by (auto simp: occurs_def)
    then have "set new \<subseteq> set old" by auto
    with assms show False by (cases new) auto
  next
    case 3
    then have "hd x \<in> set old" "hd x \<in> set new" by (cases x; simp)+
    with assms show False by auto
  next
    case 4
    then have "hd x \<in> set old" "hd x \<in> set new" by (cases x; simp)+
    with assms show False by auto
  qed
qed

section \<open>Lemmas: the scanner loop on a plain block\<close>

lemma split_lines_ne [simp]: "split_lines s \<noteq> []"
  by (induction s) auto

lemma join_split: "join_lines (split_lines s) = s"
proof (induction s)
  case Nil
  show ?case by simp
next
  case (Cons c s)
  obtain l ls where sl: "split_lines s = l # ls" by (cases "split_lines s") auto
  show ?case
  proof (cases "c = newline")
    case True
    with Cons sl show ?thesis by simp
  next
    case False
    with Cons sl show ?thesis by (cases ls) auto
  qed
qed







section \<open>Lemmas: what each operation does to the file system\<close>





lemma WriteFile_mode:
  assumes f: "files w p = Some f"
  shows "(case WriteFile (w\<lparr>trace := trace w @ reads\<rparr>) p new perm of
      (None, w') \<Rightarrow>
        map_option mode (files w' p) = Some (mode f) \<and>
        trace w' = trace w @ reads @ [EvWrite p new perm]
    | (Some err, w') \<Rightarrow> map_option mode (files w' p) = Some (mode f))"
  using f by (cases "write_access f") (simp_all add: WriteFile_def log_event_def Let_def)

lemma ReplaceInFile_to_write:
  "files w path = Some f \<Longrightarrow> readable f \<Longrightarrow> Contains (content f) old \<Longrightarrow>
   ReplaceInFile w path old new =
     WriteFile (w\<lparr>trace := trace w @ [EvStat path, EvRead path]\<rparr>) path
       (Replace (content f) old new (- 1)) (mode f)"
  by (simp add: ReplaceInFile_def Stat_ok ReadFile_ok Let_def)

lemma ReplaceInFile_no_write:
  "files w path = None \<or> (\<exists>f. files w path = Some f \<and> \<not> (readable f \<and> Contains (content f) old)) \<Longrightarrow>
   \<exists>err w'. ReplaceInFile w path old new = (Some err, w') \<and> files w' = files w"
  by (auto simp: ReplaceInFile_def Stat_def ReadFile_def Let_def)

lemma ReplaceRegexInFile_to_write:
  "Compile match = Inr matcher \<Longrightarrow> files w path = Some f \<Longrightarrow> readable f \<Longrightarrow>
   ReplaceAllString matcher (content f) replace \<noteq> content f \<Longrightarrow>
   ReplaceRegexInFile Compile ReplaceAllString w path match replace =
     WriteFile (w\<lparr>trace := trace w @ [EvStat path, EvRead path]\<rparr>) path
       (ReplaceAllString matcher (content f) replace) (mode f)"
  by (simp add: ReplaceRegexInFile_def Stat_ok ReadFile_ok Let_def)

lemma ReplaceRegexInFile_no_write:
  "(\<exists>msg. Compile match = Inl msg) \<or> files w path = None \<or>
   (\<exists>f matcher. files w path = Some f \<and> Compile match = Inr matcher \<and>
      \<not> (readable f \<and> ReplaceAllString matcher (content f) replace \<noteq> content f)) \<Longrightarrow>
   \<exists>err w'. ReplaceRegexInFile Compile ReplaceAllString w path match replace = (Some err, w') \<and>
     files w' = files w"
  by (auto simp: ReplaceRegexInFile_def Stat_def ReadFile_def Let_def split: sum.splits)

lemma UncommentCode_to_write:
  assumes f: "files w path = Some f" and r: "readable f"
    and i: "0 \<le> Index (content f) target" and sc: "Scan target \<noteq> None"
  shows "UncommentCode w path target prefix =
     WriteFile (w\<lparr>trace := trace w @ [EvRead path]\<rparr>) path
       (take (nat (Index (content f) target)) (content f) @ uncomment_block target prefix @
        drop (nat (Index (content f) target) + length target) (content f)) 0x1A4"
proof -
  from sc obtain tok rest where s: "Scan target = Some (tok, rest)" by (cases "Scan target") auto
  show ?thesis
    using i s uncomment_loop_out [of "take (nat (Index (content f) target)) (content f)" tok prefix rest]
    by (simp add: UncommentCode_def ReadFile_ok f r Let_def uncomment_block_def)
qed

lemma UncommentCode_no_scan:
  assumes f: "files w path = Some f" and r: "readable f"
    and i: "0 \<le> Index (content f) target" and sc: "Scan target = None"
  shows "UncommentCode w path target prefix = (None, w\<lparr>trace := trace w @ [EvRead path]\<rparr>)"
  using i sc by (simp add: UncommentCode_def ReadFile_ok f r)

lemma UncommentCode_no_write:
  "files w path = None \<or>
   (\<exists>f. files w path = Some f \<and> \<not> (readable f \<and> 0 \<le> Index (content f) target)) \<Longrightarrow>
   \<exists>err w'. UncommentCode w path target prefix = (Some err, w') \<and> files w' = files w"
  by (auto simp: UncommentCode_def ReadFile_def Let_def)

lemma AllowProjectBeMultiGroup_to_write:
  "files w (Join (Dir (kb tc)) ''PROJECT'') = Some f \<Longrightarrow> readable f \<Longrightarrow>
   AllowProjectBeMultiGroup tc w =
     WriteFile (w\<lparr>trace := trace w @ [EvRead (Join (Dir (kb tc)) ''PROJECT'')]\<rparr>)
       (Join (Dir (kb tc)) ''PROJECT'') (multiGroup @ content f) 0x1A4"
  by (simp add: AllowProjectBeMultiGroup_def ReadFile_ok)

lemma AllowProjectBeMultiGroup_no_write:
  "files w (Join (Dir (kb tc)) ''PROJECT'') = None \<or>
   (\<exists>f. files w (Join (Dir (kb tc)) ''PROJECT'') = Some f \<and> \<not> readable f) \<Longrightarrow>
   \<exists>err w'. AllowProjectBeMultiGroup tc w = (Some err, w') \<and> files w' = files w"
  by (auto simp: AllowProjectBeMultiGroup_def ReadFile_def)







lemma ReplaceInFile_mode:
  assumes f: "files w path = Some f"
  shows "(case ReplaceInFile w path old new of
      (None, w') \<Rightarrow>
        map_option mode (files w' path) = Some (mode f) \<and>
        (\<exists>s. trace w' = trace w @ [EvStat path, EvRead path, EvWrite path s (mode f)])
    | (Some err, w') \<Rightarrow> map_option mode (files w' path) = Some (mode f))"
proof (cases "readable f \<and> Contains (content f) old")
  case True
  then have "ReplaceInFile w path old new =
     WriteFile (w\<lparr>trace := trace w @ [EvStat path, EvRead path]\<rparr>) path
       (Replace (content f) old new (- 1)) (mode f)"
    by (simp add: ReplaceInFile_to_write [OF f])
  with WriteFile_mode [OF f, of "[EvStat path, EvRead path]" "Replace (content f) old new (- 1)" "mode f"]
  show ?thesis by (auto split: option.splits prod.splits)
next
  case False
  with f have "files w path = None \<or>
      (\<exists>f. files w path = Some f \<and> \<not> (readable f \<and> Contains (content f) old))" by simp
  from ReplaceInFile_no_write [OF this, where new = new] f show ?thesis by auto
qed

lemma ReplaceRegexInFile_mode:
  assumes f: "files w path = Some f"
  shows "(case ReplaceRegexInFile Compile ReplaceAllString w path match replace of
      (None, w') \<Rightarrow>
        map_option mode (files w' path) = Some (mode f) \<and>
        (\<exists>s. trace w' = trace w @ [EvStat path, EvRead path, EvWrite path s (mode f)])
    | (Some err, w') \<Rightarrow> map_option mode (files w' path) = Some (mode f))"
proof (cases "\<exists>matcher. Compile match = Inr matcher \<and> readable f \<and>
    ReplaceAllString matcher (content f) replace \<noteq> content f")
  case True
  then obtain matcher where m: "Compile match = Inr matcher" and r: "readable f"
    and d: "ReplaceAllString matcher (content f) replace \<noteq> content f" by blast
  from WriteFile_mode [OF f, of "[EvStat path, EvRead path]"
      "ReplaceAllString matcher (content f) replace" "mode f"]
  show ?thesis
    unfolding ReplaceRegexInFile_to_write
      [where Compile = Compile and ReplaceAllString = ReplaceAllString, OF m f r d]
    by (auto split: option.splits prod.splits)
next
  case False
  with f have "(\<exists>msg. Compile match = Inl msg) \<or> files w path = None \<or>
   (\<exists>f matcher. files w path = Some f \<and> Compile match = Inr matcher \<and>
      \<not> (readable f \<and> ReplaceAllString matcher (content f) replace \<noteq> content f))"
    by (cases "Compile match") auto
  from ReplaceRegexInFile_no_write
    [where Compile = Compile and ReplaceAllString = ReplaceAllString, OF this] f
  show ?thesis by auto
qed

lemma UncommentCode_mode:
  assumes f: "files w path = Some f"
  shows "(case UncommentCode w path target prefix of
      (None, w') \<Rightarrow>
        map_option mode (files w' path) = Some (mode f) \<and>
        (if Scan target = None then trace w' = trace w @ [EvRead path]
         else (\<exists>s. trace w' = trace w @ [EvRead path, EvWrite path s 0x1A4]))
    | (Some err, w') \<Rightarrow> map_option mode (files w' path) = Some (mode f))"
proof (cases "readable f \<and> 0 \<le> Index (content f) target")
  case True
  then have r: "readable f" and i: "0 \<le> Index (content f) target" by simp_all
  show ?thesis
  proof (cases "Scan target = None")
    case True
    then show ?thesis by (simp add: UncommentCode_no_scan [OF f r i True] f)
  next
    case False
    let ?new = "take (nat (Index (content f) target)) (content f) @
       uncomment_block target prefix @
       drop (nat (Index (content f) target) + length target) (content f)"
    from WriteFile_mode [OF f, of "[EvRead path]" ?new "0x1A4"] False
    show ?thesis
      unfolding UncommentCode_to_write [OF f r i False]
      by (auto split: option.splits prod.splits)
  qed
next
  case False
  with f have "files w path = None \<or>
      (\<exists>f. files w path = Some f \<and> \<not> (readable f \<and> 0 \<le> Index (content f) target))" by simp
  from UncommentCode_no_write [OF this, where prefix = prefix] f show ?thesis by auto
qed

lemma AllowProjectBeMultiGroup_mode:
  assumes g: "files w (Join (Dir (kb tc)) ''PROJECT'') = Some g"
  shows "(case AllowProjectBeMultiGroup tc w of
      (None, w') \<Rightarrow>
        map_option mode (files w' (Join (Dir (kb tc)) ''PROJECT'')) = Some (mode g) \<and>
        (\<exists>s. trace w' = trace w @ [EvRead (Join (Dir (kb tc)) ''PROJECT''),
                EvWrite (Join (Dir (kb tc)) ''PROJECT'') s 0x1A4])
    | (Some err, w') \<Rightarrow>
        map_option mode (files w' (Join (Dir (kb tc)) ''PROJECT'')) = Some (mode g))"
proof (cases "readable g")
  case True
  from WriteFile_mode [OF g, of "[EvRead (Join (Dir (kb tc)) ''PROJECT'')]"
      "multiGroup @ content g" "0x1A4"]
  show ?thesis
    unfolding AllowProjectBeMultiGroup_to_write [OF g True]
    by (auto split: option.splits prod.splits)
next
  case False
  with g have "files w (Join (Dir (kb tc)) ''PROJECT'') = None \<or>
      (\<exists>f. files w (Join (Dir (kb tc)) ''PROJECT'') = Some f \<and> \<not> readable f)" by simp
  from AllowProjectBeMultiGroup_no_write [OF this] g show ?thesis by auto
qed

section \<open>Lemmas: the scanner and the prerequisites\<close>

text \<open>On a target shorter than the scanner's buffer the first \<open>Scan\<close> fails for the empty target only.\<close>

lemma Scan_None_short:
  "length data < MaxScanTokenSize \<Longrightarrow> Scan data = None \<longleftrightarrow> data = []"
  by (auto simp: Scan_def split: option.splits dest: IndexByte_less)

text \<open>
  A context made by \<open>NewTestContext\<close> has both flags set, and teardown on it runs both
  uninstallers; \<open>InstallPrerequisites\<close> itself installs nothing that the cluster lists.
\<close>

lemma NewTestContext_flags:
  "NewTestContext kbNewTestContext lowerBase binaryName env = Inr tc \<Longrightarrow>
   isPrometheusManagedBySuite tc \<and> isOLMManagedBySuite tc"
  by (auto simp: NewTestContext_def Let_def split: sum.splits)

lemma UninstallPrerequisites_managed:
  "isPrometheusManagedBySuite tc \<Longrightarrow> isOLMManagedBySuite tc \<Longrightarrow>
   executed (UninstallPrerequisites tc cl) =
     executed cl @ [UninstallPrometheusOperManager, UninstallOLM]"
  by (simp add: UninstallPrerequisites_def run_command_def)

lemma InstallPrerequisites_present_not_installed:
  assumes "api_resources cl = Inr output"
  shows "\<exists>cmds. executed (snd (InstallPrerequisites olmVersion tc cl)) = executed cl @ cmds \<and>
    (Contains output ''servicemonitors'' \<longrightarrow> InstallPrometheusOperManager \<notin> set cmds) \<and>
    (Contains output ''clusterserviceversions'' \<longrightarrow> InstallOLMVersion olmVersion \<notin> set cmds)"
  using assms
  by (auto simp: InstallPrerequisites_def run_command_def Let_def split: bool.splits)

section \<open>Lemmas: strings.Replace on small inputs\<close>


lemma Replace_abc: "Replace ''abc'' ''b'' ''X'' (- 1) = ''aXc''"
  by code_simp

lemma Replace_abc_same: "Replace ''abc'' ''b'' ''b'' (- 1) = ''abc''"
  by (simp add: Replace_def)

lemma Replace_domain: "Replace ''domain: a.b'' ''.'' ''::'' (- 1) = ''domain: a::b''"
  by code_simp

section \<open>Claims about UncommentCode\<close>

text \<open>
  C1. The file holds \<open>"x\\n// line1\\n// line2\\ny\\n"\<close>, the target block is
  \<open>"// line1\\n// line2\\n"\<close> and the prefix \<open>"// "\<close>. The call succeeds, and the
  prefix is stripped from both lines, but the scanner consumes the newline that ends
  the target and the loop writes none after the last line: the file afterwards holds
  \<open>"x\\nline1\\nline2y\\n"\<close>, not \<open>"x\\nline1\\nline2\\ny\\n"\<close>.
\<close>

theorem C1_uncomment_drops_final_newline:
  "UncommentCode
     \<lparr>files = [''main.go'' \<mapsto>
        \<lparr>content = ''x\<newline>// line1\<newline>// line2\<newline>y\<newline>'',
         mode = 0x1A4, readable = True, write_access = Granted\<rparr>],
      trace = []\<rparr>
     ''main.go'' ''// line1\<newline>// line2\<newline>'' ''// ''
   = (None,
      \<lparr>files = [''main.go'' \<mapsto>
         \<lparr>content = ''x\<newline>line1\<newline>line2y\<newline>'',
          mode = 0x1A4, readable = True, write_access = Granted\<rparr>],
       trace = [EvRead ''main.go'',
                EvWrite ''main.go'' ''x\<newline>line1\<newline>line2y\<newline>'' 0x1A4]\<rparr>)
   \<and> ''x\<newline>line1\<newline>line2y\<newline>'' \<noteq> ''x\<newline>line1\<newline>line2\<newline>y\<newline>''"
  by (simp add: UncommentCode_def ReadFile_def WriteFile_def log_event_def Scan_def
      HasPrefix_def TrimPrefix_def newline_def MaxScanTokenSize_def dropCR_def
      uncomment_loop.simps Let_def)

text \<open>
  C7. The file exists and can be read, and the target block does not occur verbatim
  in its content (so the target is not empty: the empty block occurs everywhere).
  Then \<open>UncommentCode\<close> returns the error "unable to find the code ... to be
  uncomment" with the target in it, and the world afterwards is the world before with
  one read in the trace: no write, every file as it was.
\<close>

theorem C7_uncomment_target_absent:
  assumes f: "files w filename = Some f" and r: "readable f"
    and no: "\<not> occurs target (content f)"
  shows "UncommentCode w filename target prefix =
     (Some (errorString (''unable to find the code '' @ target @ '' to be uncomment'')),
      w\<lparr>trace := trace w @ [EvRead filename]\<rparr>)"
proof -
  from no have "Index (content f) target < 0" by (simp add: Index_neg_iff)
  then show ?thesis
    by (simp add: UncommentCode_def ReadFile_ok f r)
qed

theorem C7_uncomment_target_absent_witness:
  "UncommentCode (one_file ''main.go'' ''x\<newline>// a\<newline>'' 0x1A4) ''main.go'' ''// b'' ''// ''
   = (Some (errorString ''unable to find the code // b to be uncomment''),
      (one_file ''main.go'' ''x\<newline>// a\<newline>'' 0x1A4)\<lparr>trace := [EvRead ''main.go'']\<rparr>)"
proof -
  have "\<not> Contains ''x\<newline>// a\<newline>'' ''// b''"
    by (simp add: Contains_def HasPrefix_def Let_def)
  then have no: "\<not> occurs ''// b'' ''x\<newline>// a\<newline>''" by (simp add: Contains_iff)
  show ?thesis
    using no C7_uncomment_target_absent [of "one_file ''main.go'' ''x\<newline>// a\<newline>'' 0x1A4"
        "''main.go''"
        "\<lparr>content = ''x\<newline>// a\<newline>'', mode = 0x1A4, readable = True, write_access = Granted\<rparr>"
        "''// b''" "''// ''"]
    by (simp add: one_file_def)
qed

text \<open>
  C10. The file can be read and written, the target's first occurrence in its
  content is at offset \<open>i\<close>, and the target occurs again at an offset \<open>j\<close> behind the
  end of the first occurrence. Then \<open>UncommentCode\<close> succeeds and the new content is
  the bytes before \<open>i\<close>, the uncommented block, and the bytes behind the first
  occurrence, all of them as they were; the later occurrence is still there, moved by
  the change of length of the block, and everything from it on is unchanged.
\<close>

theorem C10_uncomment_first_occurrence_only:
  assumes f: "files w filename = Some f" and r: "readable f" and wr: "writable f"
    and i: "first_occurrence target (content f) i"
    and j: "occurs_at target (content f) j" and ij: "i + length target \<le> j"
  shows "fst (UncommentCode w filename target prefix) = None \<and>
    files (snd (UncommentCode w filename target prefix)) =
      (files w)(filename \<mapsto> f\<lparr>content :=
         take i (content f) @ uncomment_block target prefix @
         drop (i + length target) (content f)\<rparr>) \<and>
    occurs_at target
      (take i (content f) @ uncomment_block target prefix @ drop (i + length target) (content f))
      (j - length target + length (uncomment_block target prefix)) \<and>
    drop (j - length target + length (uncomment_block target prefix))
      (take i (content f) @ uncomment_block target prefix @ drop (i + length target) (content f))
    = drop j (content f)"

proof -
  let ?c = "content f" and ?b = "uncomment_block target prefix"
  let ?new = "take i ?c @ ?b @ drop (i + length target) ?c"
  from i have oi: "occurs_at target ?c i" by (simp add: first_occurrence_def)
  then have li: "i \<le> length ?c" by (simp add: occurs_at_def)
  have res: "UncommentCode w filename target prefix = (None,
      if Scan target = None then w\<lparr>trace := trace w @ [EvRead filename]\<rparr>
      else w\<lparr>files := (files w)(filename \<mapsto> f\<lparr>content := ?new\<rparr>),
             trace := trace w @ [EvRead filename, EvWrite filename ?new 0x1A4]\<rparr>)"
    by (rule UncommentCode_found [OF f r wr first_occurrence_Index [OF i]])
  have same: "Scan target = None \<Longrightarrow> ?new = ?c"
  proof -
    assume "Scan target = None"
    then have "?b = target" by (simp add: uncomment_block_def)
    moreover from oi have "?c = take i ?c @ target @ drop (i + length target) ?c"
      unfolding occurs_at_def by (metis add.commute append_take_drop_id drop_drop)
    ultimately show ?thesis by simp
  qed
  have files: "files (snd (UncommentCode w filename target prefix)) =
      (files w)(filename \<mapsto> f\<lparr>content := ?new\<rparr>)"
  proof (cases "Scan target")
    case None
    from same [OF None] have "f\<lparr>content := ?new\<rparr> = f" by simp
    with None f show ?thesis by (simp add: res fun_upd_idem)
  next
    case (Some a)
    then show ?thesis by (simp add: res)
  qed
  have d: "drop (j - length target + length ?b) ?new = drop j ?c"
    using li ij by (simp add: min_def)
  from j have "j + length target \<le> length ?c" and "take (length target) (drop j ?c) = target"
    by (simp_all add: occurs_at_def)
  then have jl: "j + length target \<le> length ?c" and jt: "take (length target) (drop j ?c) = target"
    by simp_all
  have len: "length ?new = i + length ?b + (length ?c - (i + length target))"
    using li by simp
  have "j - length target + length ?b + length target \<le> length ?new"
    using jl ij li unfolding len by linarith
  with jt have "occurs_at target ?new (j - length target + length ?b)"
    unfolding occurs_at_def d by simp
  with files d show ?thesis by (simp add: res)
qed

theorem C10_uncomment_first_occurrence_only_witness:
  "fst (UncommentCode (one_file ''a.yaml'' ''#a\<newline>#b\<newline>#a\<newline>#b\<newline>'' 0x1A4)
          ''a.yaml'' ''#a\<newline>#b'' ''#'') = None \<and>
   files (snd (UncommentCode (one_file ''a.yaml'' ''#a\<newline>#b\<newline>#a\<newline>#b\<newline>'' 0x1A4)
          ''a.yaml'' ''#a\<newline>#b'' ''#'')) =
     [''a.yaml'' \<mapsto> \<lparr>content = ''a\<newline>b\<newline>#a\<newline>#b\<newline>'', mode = 0x1A4,
        readable = True, write_access = Granted\<rparr>] \<and>
   occurs_at ''#a\<newline>#b'' ''a\<newline>b\<newline>#a\<newline>#b\<newline>'' 4"
proof -
  have b: "uncomment_block ''#a\<newline>#b'' ''#'' = ''a\<newline>b''"
    by (simp add: uncomment_block_def Scan_def newline_def MaxScanTokenSize_def dropCR_def
        uncomment_loop.simps TrimPrefix_def HasPrefix_def)
  have i: "first_occurrence ''#a\<newline>#b'' ''#a\<newline>#b\<newline>#a\<newline>#b\<newline>'' 0"
    by (simp add: first_occurrence_def occurs_at_def)
  have j: "occurs_at ''#a\<newline>#b'' ''#a\<newline>#b\<newline>#a\<newline>#b\<newline>'' 6"
    by (simp add: occurs_at_def)
  show ?thesis
    using C10_uncomment_first_occurrence_only
      [of "one_file ''a.yaml'' ''#a\<newline>#b\<newline>#a\<newline>#b\<newline>'' 0x1A4" "''a.yaml''"
        "\<lparr>content = ''#a\<newline>#b\<newline>#a\<newline>#b\<newline>'', mode = 0x1A4,
           readable = True, write_access = Granted\<rparr>"
        "''#a\<newline>#b''" 0 6 "''#''"] i j
    by (simp add: one_file_def writable_def b occurs_at_def)
qed

section \<open>Claims about ReplaceInFile\<close>

text \<open>
  C2, as the code has it. The file exists and can be read. If \<open>old\<close> occurs in its
  content and the file can be written, \<open>ReplaceInFile\<close> succeeds and the file holds
  \<open>strings.Replace(content, old, new, -1)\<close>, which for a non-empty \<open>old\<close> is the content
  with every occurrence replaced from left to right, and for the empty \<open>old\<close> has
  \<open>new\<close> before the first byte and after every UTF-8 sequence. No occurrence of \<open>old\<close>
  remains when \<open>old\<close> and \<open>new\<close> do not overlap: neither occurs in the other, and no
  non-empty end of one is a beginning of the other. If \<open>old\<close> does not occur, the call
  returns "unable to find the content to be replaced" and the world has only the stat
  and the read in its trace.
\<close>

theorem C2_replace_in_file:
  assumes f: "files w path = Some f" and r: "readable f"
  shows "(occurs old (content f) \<and> writable f \<longrightarrow>
            ReplaceInFile w path old new =
              (None,
               w\<lparr>files := (files w)(path \<mapsto>
                      f\<lparr>content := Replace (content f) old new (- 1)\<rparr>),
                  trace := trace w @ [EvStat path, EvRead path,
                    EvWrite path (Replace (content f) old new (- 1)) (mode f)]\<rparr>) \<and>
            (old \<noteq> [] \<longrightarrow>
               replaced_all old new (content f) (Replace (content f) old new (- 1))) \<and>
            (old = [] \<longrightarrow>
               Replace (content f) old new (- 1) =
                 new @ concat (map (\<lambda>r. r @ new) (utf8_sequences (content f)))) \<and>
            (\<not> overlapping old new \<longrightarrow>
               \<not> occurs old (Replace (content f) old new (- 1)))) \<and>
         (\<not> occurs old (content f) \<longrightarrow>
            ReplaceInFile w path old new =
              (Some (errorString ''unable to find the content to be replaced''),
               w\<lparr>trace := trace w @ [EvStat path, EvRead path]\<rparr>))"
proof (intro conjI impI)
  assume "occurs old (content f) \<and> writable f"
  then have "Contains (content f) old" and "writable f" by (simp_all add: Contains_iff)
  then show "ReplaceInFile w path old new =
      (None,
       w\<lparr>files := (files w)(path \<mapsto> f\<lparr>content := Replace (content f) old new (- 1)\<rparr>),
          trace := trace w @ [EvStat path, EvRead path,
            EvWrite path (Replace (content f) old new (- 1)) (mode f)]\<rparr>)"
    by (simp add: ReplaceInFile_def Stat_ok ReadFile_ok WriteFile_ok f r Let_def)
next
  assume "old \<noteq> []"
  then show "replaced_all old new (content f) (Replace (content f) old new (- 1))"
    by (rule Replace_replaced_all)
next
  assume "old = []"
  then show "Replace (content f) old new (- 1) =
      new @ concat (map (\<lambda>r. r @ new) (utf8_sequences (content f)))"
    by (simp add: Replace_empty_old)
next
  assume a: "\<not> overlapping old new"
  have "old \<noteq> []"
  proof
    assume "old = []"
    then have "new = [] @ old @ new" by simp
    then have "occurs old new" unfolding occurs_def by blast
    with a show False by (simp add: overlapping_def)
  qed
  then have "replaced_all old new (content f) (Replace (content f) old new (- 1))"
    by (rule Replace_replaced_all)
  then show "\<not> occurs old (Replace (content f) old new (- 1))"
    using a by (rule replaced_all_no_overlap)
next
  assume "\<not> occurs old (content f)"
  then have "\<not> Contains (content f) old" by (simp add: Contains_iff)
  then show "ReplaceInFile w path old new =
      (Some (errorString ''unable to find the content to be replaced''),
       w\<lparr>trace := trace w @ [EvStat path, EvRead path]\<rparr>)"
    by (simp add: ReplaceInFile_def Stat_ok ReadFile_ok f r)
qed

theorem C2_replace_in_file_witness:
  "ReplaceInFile (one_file ''Makefile'' ''A=v1 B=v1'' 0x180) ''Makefile'' ''v1'' ''v2'' =
     (None,
      \<lparr>files = [''Makefile'' \<mapsto>
         \<lparr>content = ''A=v2 B=v2'', mode = 0x180, readable = True, write_access = Granted\<rparr>],
       trace = [EvStat ''Makefile'', EvRead ''Makefile'',
                EvWrite ''Makefile'' ''A=v2 B=v2'' 0x180]\<rparr>) \<and>
   replaced_all ''v1'' ''v2'' ''A=v1 B=v1'' ''A=v2 B=v2'' \<and>
   \<not> overlapping ''v1'' ''v2'' \<and>
   \<not> occurs ''v1'' ''A=v2 B=v2'' \<and>
   ReplaceInFile (one_file ''Makefile'' ''A=v1 B=v1'' 0x180) ''Makefile'' ''v3'' ''v2'' =
     (Some (errorString ''unable to find the content to be replaced''),
      (one_file ''Makefile'' ''A=v1 B=v1'' 0x180)\<lparr>trace := [EvStat ''Makefile'', EvRead ''Makefile'']\<rparr>)"
proof -
  have "Contains ''A=v1 B=v1'' ''v1''" by (simp add: Contains_def HasPrefix_def Let_def)
  then have yes: "occurs ''v1'' ''A=v1 B=v1''" by (simp add: Contains_iff)
  have "\<not> Contains ''A=v1 B=v1'' ''v3''" by (simp add: Contains_def HasPrefix_def Let_def)
  then have no: "\<not> occurs ''v3'' ''A=v1 B=v1''" by (simp add: Contains_iff)
  have apart: "\<not> overlapping ''v1'' ''v2''"
    by (simp add: overlapping_code Contains_def HasPrefix_def Let_def upt_rec)
  have rep: "Replace ''A=v1 B=v1'' ''v1'' ''v2'' (- 1) = ''A=v2 B=v2''" by code_simp
  show ?thesis
    using yes no apart
      C2_replace_in_file [of "one_file ''Makefile'' ''A=v1 B=v1'' 0x180" "''Makefile''"
        "\<lparr>content = ''A=v1 B=v1'', mode = 0x180, readable = True, write_access = Granted\<rparr>"
        "''v1''" "''v2''"]
      C2_replace_in_file [of "one_file ''Makefile'' ''A=v1 B=v1'' 0x180" "''Makefile''"
        "\<lparr>content = ''A=v1 B=v1'', mode = 0x180, readable = True, write_access = Granted\<rparr>"
        "''v3''" "''v2''"]
    by (simp add: one_file_def writable_def rep)
qed

text \<open>
  C2 as stated fails in its parenthesis: \<open>new\<close> not containing \<open>old\<close> does not keep
  \<open>old\<close> out of the result. With the content \<open>abb\<close>, \<open>old = ab\<close> and \<open>new = a\<close> the
  file afterwards holds \<open>ab\<close>. Here \<open>new\<close> occurs in \<open>old\<close>: the two overlap.
\<close>

theorem C2_occurrence_remains:
  "ReplaceInFile (one_file ''main.go'' ''abb'' 0x180) ''main.go'' ''ab'' ''a'' =
     (None,
      \<lparr>files = [''main.go'' \<mapsto>
         \<lparr>content = ''ab'', mode = 0x180, readable = True, write_access = Granted\<rparr>],
       trace = [EvStat ''main.go'', EvRead ''main.go'', EvWrite ''main.go'' ''ab'' 0x180]\<rparr>) \<and>
   \<not> occurs ''ab'' ''a'' \<and> occurs ''ab'' ''ab''"
proof -
  have c: "Contains ''abb'' ''ab''" by (simp add: Contains_def HasPrefix_def Let_def)
  have rep: "Replace ''abb'' ''ab'' ''a'' (- 1) = ''ab''" by code_simp
  have "\<not> Contains ''a'' ''ab''" by (simp add: Contains_def HasPrefix_def Let_def)
  then have n: "\<not> occurs ''ab'' ''a''" by (simp add: Contains_iff)
  have "Contains ''ab'' ''ab''" by (simp add: Contains_def HasPrefix_def Let_def)
  then have y: "occurs ''ab'' ''ab''" by (simp add: Contains_iff)
  have "ReplaceInFile (one_file ''main.go'' ''abb'' 0x180) ''main.go'' ''ab'' ''a'' =
     (None,
      \<lparr>files = [''main.go'' \<mapsto>
         \<lparr>content = ''ab'', mode = 0x180, readable = True, write_access = Granted\<rparr>],
       trace = [EvStat ''main.go'', EvRead ''main.go'', EvWrite ''main.go'' ''ab'' 0x180]\<rparr>)"
    using c
    by (simp add: ReplaceInFile_def one_file_def Stat_def ReadFile_def WriteFile_def
        log_event_def rep Let_def)
  with n y show ?thesis by simp
qed

section \<open>Claims about ReplaceRegexInFile\<close>

text \<open>
  C8. When the pattern does not compile, \<open>ReplaceRegexInFile\<close> returns the
  compilation error, whatever the path and the file system are, and the world is the
  one before the call: nothing was stat'ed, read or written.
\<close>

theorem C8_regex_bad_pattern_no_io:
  assumes "Compile match = Inl msg"
  shows "ReplaceRegexInFile Compile ReplaceAllString w path match replace =
           (Some (SyntaxError msg), w)"
  using assms by (simp add: ReplaceRegexInFile_def)

theorem C8_regex_bad_pattern_no_io_witness:
  "ReplaceRegexInFile literal_Compile literal_ReplaceAllString
     \<lparr>files = Map.empty, trace = []\<rparr> ''missing.go'' ''('' ''x''
   = (Some (SyntaxError ''error parsing regexp: missing closing ): `(`''),
      \<lparr>files = Map.empty, trace = []\<rparr>)"
  using C8_regex_bad_pattern_no_io [of literal_Compile "''(''"
      "''error parsing regexp: missing closing ): `(`''"
      literal_ReplaceAllString "\<lparr>files = Map.empty, trace = []\<rparr>" "''missing.go''" "''x''"]
  by (simp add: literal_Compile_def)

text \<open>
  C3. The pattern compiles and the file exists and can be read. If the substitution
  gives back the content byte for byte, whatever the reason, the call returns the
  error "unable to find the content to be replaced" and the world has only the stat
  and the read in its trace. If the substituted content differs and the file can be
  written, the call succeeds and the file holds the substituted content.
\<close>

theorem C3_regex_no_change_is_not_found:
  assumes c: "Compile match = Inr matcher"
    and f: "files w path = Some f" and r: "readable f"
  shows "(ReplaceAllString matcher (content f) replace = content f \<longrightarrow>
            ReplaceRegexInFile Compile ReplaceAllString w path match replace =
              (Some (errorString ''unable to find the content to be replaced''),
               w\<lparr>trace := trace w @ [EvStat path, EvRead path]\<rparr>)) \<and>
         (ReplaceAllString matcher (content f) replace \<noteq> content f \<and> writable f \<longrightarrow>
            ReplaceRegexInFile Compile ReplaceAllString w path match replace =
              (None,
               w\<lparr>files := (files w)(path \<mapsto>
                      f\<lparr>content := ReplaceAllString matcher (content f) replace\<rparr>),
                  trace := trace w @ [EvStat path, EvRead path,
                    EvWrite path (ReplaceAllString matcher (content f) replace) (mode f)]\<rparr>))"
  using c by (simp add: ReplaceRegexInFile_def Stat_ok ReadFile_ok WriteFile_ok f r Let_def)

theorem C3_regex_no_change_is_not_found_witness:
  "ReplaceRegexInFile literal_Compile literal_ReplaceAllString
     (one_file ''main.go'' ''abc'' 0x180) ''main.go'' ''b'' ''b''
   = (Some (errorString ''unable to find the content to be replaced''),
      (one_file ''main.go'' ''abc'' 0x180)\<lparr>trace := [EvStat ''main.go'', EvRead ''main.go'']\<rparr>) \<and>
   ReplaceRegexInFile literal_Compile literal_ReplaceAllString
     (one_file ''main.go'' ''abc'' 0x180) ''main.go'' ''b'' ''X''
   = (None,
      \<lparr>files = [''main.go'' \<mapsto>
         \<lparr>content = ''aXc'', mode = 0x180, readable = True, write_access = Granted\<rparr>],
       trace = [EvStat ''main.go'', EvRead ''main.go'', EvWrite ''main.go'' ''aXc'' 0x180]\<rparr>)"
  using C3_regex_no_change_is_not_found [of literal_Compile "''b''" "''b''"
      "one_file ''main.go'' ''abc'' 0x180" "''main.go''"
      "\<lparr>content = ''abc'', mode = 0x180, readable = True, write_access = Granted\<rparr>"
      literal_ReplaceAllString "''b''"]
    C3_regex_no_change_is_not_found [of literal_Compile "''b''" "''b''"
      "one_file ''main.go'' ''abc'' 0x180" "''main.go''"
      "\<lparr>content = ''abc'', mode = 0x180, readable = True, write_access = Granted\<rparr>"
      literal_ReplaceAllString "''X''"]
  by (simp add: literal_Compile_def literal_ReplaceAllString_def one_file_def writable_def Replace_abc
      Replace_abc_same)

section \<open>Claims about AllowProjectBeMultiGroup\<close>

text \<open>
  C9. When the \<open>PROJECT\<close> file of the context's directory can be read and written,
  \<open>AllowProjectBeMultiGroup\<close> succeeds and the file holds the line
  \<open>"multigroup: true\\n"\<close> followed by its former content. In any world \<open>w0\<close>, an
  error of the call is an I/O error on that file: the open refused, the file missing
  or not permitted, or the write failed, no space left; it is never an error about a
  target.
\<close>

theorem C9_prepend_multigroup:
  assumes f: "files w (Join (Dir (kb tc)) ''PROJECT'') = Some f"
    and r: "readable f" and wr: "writable f"
  shows "AllowProjectBeMultiGroup tc w =
     (None,
      w\<lparr>files := (files w)(Join (Dir (kb tc)) ''PROJECT'' \<mapsto>
             f\<lparr>content := ''multigroup: true\<newline>'' @ content f\<rparr>),
         trace := trace w @ [EvRead (Join (Dir (kb tc)) ''PROJECT''),
           EvWrite (Join (Dir (kb tc)) ''PROJECT'')
             (''multigroup: true\<newline>'' @ content f) 0x1A4]\<rparr>) \<and>
     (case fst (AllowProjectBeMultiGroup tc w0) of
        None \<Rightarrow> True
      | Some e \<Rightarrow> e = PathError ''open'' (Join (Dir (kb tc)) ''PROJECT'') ENOENT \<or>
                  e = PathError ''open'' (Join (Dir (kb tc)) ''PROJECT'') EACCES \<or>
                  e = PathError ''write'' (Join (Dir (kb tc)) ''PROJECT'') ENOSPC)"
proof -
  have a: "AllowProjectBeMultiGroup tc w =
     (None,
      w\<lparr>files := (files w)(Join (Dir (kb tc)) ''PROJECT'' \<mapsto>
             f\<lparr>content := ''multigroup: true\<newline>'' @ content f\<rparr>),
         trace := trace w @ [EvRead (Join (Dir (kb tc)) ''PROJECT''),
           EvWrite (Join (Dir (kb tc)) ''PROJECT'')
             (''multigroup: true\<newline>'' @ content f) 0x1A4]\<rparr>)"
    by (simp add: AllowProjectBeMultiGroup_def ReadFile_ok WriteFile_ok f r wr
        multiGroup_def newline_def)
  have b: "(case fst (AllowProjectBeMultiGroup tc w0) of
        None \<Rightarrow> True
      | Some e \<Rightarrow> e = PathError ''open'' (Join (Dir (kb tc)) ''PROJECT'') ENOENT \<or>
                  e = PathError ''open'' (Join (Dir (kb tc)) ''PROJECT'') EACCES \<or>
                  e = PathError ''write'' (Join (Dir (kb tc)) ''PROJECT'') ENOSPC)"
    by (auto simp: AllowProjectBeMultiGroup_def ReadFile_def WriteFile_def Let_def
        split: option.splits if_splits write_access.splits)
  from a b show ?thesis by simp
qed

theorem C9_prepend_multigroup_witness:
  "AllowProjectBeMultiGroup example_tc
     (one_file ''/tmp/e2e/PROJECT'' ''domain: example.com\<newline>'' 0x180)
   = (None,
      \<lparr>files = [''/tmp/e2e/PROJECT'' \<mapsto>
         \<lparr>content = ''multigroup: true\<newline>domain: example.com\<newline>'', mode = 0x180,
          readable = True, write_access = Granted\<rparr>],
       trace = [EvRead ''/tmp/e2e/PROJECT'',
         EvWrite ''/tmp/e2e/PROJECT'' ''multigroup: true\<newline>domain: example.com\<newline>'' 0x1A4]\<rparr>) \<and>
   fst (AllowProjectBeMultiGroup example_tc \<lparr>files = Map.empty, trace = []\<rparr>)
   = Some (PathError ''open'' ''/tmp/e2e/PROJECT'' ENOENT)"
proof -
  have p: "Join (Dir (kb example_tc)) ''PROJECT'' = ''/tmp/e2e/PROJECT''"
    by (simp add: Join_def example_tc_def)
  show ?thesis
    using C9_prepend_multigroup [of "one_file ''/tmp/e2e/PROJECT'' ''domain: example.com\<newline>'' 0x180"
        example_tc
        "\<lparr>content = ''domain: example.com\<newline>'', mode = 0x180, readable = True, write_access = Granted\<rparr>"
        "\<lparr>files = Map.empty, trace = []\<rparr>"]
    by (simp add: p one_file_def writable_def AllowProjectBeMultiGroup_def ReadFile_def log_event_def)
qed

section \<open>Claims about all four operations\<close>




text \<open>
  C5, as the code has it. Each of the four operations leaves the mode of the file as
  it was, on success and on failure, since the file it writes exists. \<open>ReplaceInFile\<close> and
  \<open>ReplaceRegexInFile\<close> pass the mode read by \<open>os.Stat\<close> to the write;
  \<open>UncommentCode\<close> (when it writes) and \<open>AllowProjectBeMultiGroup\<close> pass the constant
  \<open>0644\<close>, which is \<open>0x1A4\<close>.
\<close>

theorem C5_modes_are_kept:
  assumes f: "files w path = Some f"
    and g: "files w (Join (Dir (kb tc)) ''PROJECT'') = Some g"
  shows "(case ReplaceInFile w path old new of
      (None, w') \<Rightarrow>
        map_option mode (files w' path) = Some (mode f) \<and>
        (\<exists>s. trace w' = trace w @ [EvStat path, EvRead path, EvWrite path s (mode f)])
    | (Some err, w') \<Rightarrow> map_option mode (files w' path) = Some (mode f)) \<and>
   (case ReplaceRegexInFile Compile ReplaceAllString w path match replace of
      (None, w') \<Rightarrow>
        map_option mode (files w' path) = Some (mode f) \<and>
        (\<exists>s. trace w' = trace w @ [EvStat path, EvRead path, EvWrite path s (mode f)])
    | (Some err, w') \<Rightarrow> map_option mode (files w' path) = Some (mode f)) \<and>
   (case UncommentCode w path target prefix of
      (None, w') \<Rightarrow>
        map_option mode (files w' path) = Some (mode f) \<and>
        (if Scan target = None then trace w' = trace w @ [EvRead path]
         else (\<exists>s. trace w' = trace w @ [EvRead path, EvWrite path s 0x1A4]))
    | (Some err, w') \<Rightarrow> map_option mode (files w' path) = Some (mode f)) \<and>
   (case AllowProjectBeMultiGroup tc w of
      (None, w') \<Rightarrow>
        map_option mode (files w' (Join (Dir (kb tc)) ''PROJECT'')) = Some (mode g) \<and>
        (\<exists>s. trace w' = trace w @ [EvRead (Join (Dir (kb tc)) ''PROJECT''),
                EvWrite (Join (Dir (kb tc)) ''PROJECT'') s 0x1A4])
    | (Some err, w') \<Rightarrow>
        map_option mode (files w' (Join (Dir (kb tc)) ''PROJECT'')) = Some (mode g))"
  by (intro conjI ReplaceInFile_mode [OF f] ReplaceRegexInFile_mode [OF f]
      UncommentCode_mode [OF f] AllowProjectBeMultiGroup_mode [OF g])

theorem C5_modes_are_kept_witness:
  "ReplaceInFile (one_file ''/tmp/e2e/PROJECT'' ''domain: a.b'' 0x180) ''/tmp/e2e/PROJECT'' ''.'' ''::'' =
     (None,
      \<lparr>files = [''/tmp/e2e/PROJECT'' \<mapsto>
         \<lparr>content = ''domain: a::b'', mode = 0x180, readable = True, write_access = Granted\<rparr>],
       trace = [EvStat ''/tmp/e2e/PROJECT'', EvRead ''/tmp/e2e/PROJECT'',
                EvWrite ''/tmp/e2e/PROJECT'' ''domain: a::b'' 0x180]\<rparr>) \<and>
   AllowProjectBeMultiGroup example_tc (one_file ''/tmp/e2e/PROJECT'' ''domain: a.b'' 0x180) =
     (None,
      \<lparr>files = [''/tmp/e2e/PROJECT'' \<mapsto>
         \<lparr>content = ''multigroup: true\<newline>domain: a.b'', mode = 0x180,
          readable = True, write_access = Granted\<rparr>],
       trace = [EvRead ''/tmp/e2e/PROJECT'',
                EvWrite ''/tmp/e2e/PROJECT'' ''multigroup: true\<newline>domain: a.b'' 0x1A4]\<rparr>)"
proof -
  have p: "Join (Dir (kb example_tc)) ''PROJECT'' = ''/tmp/e2e/PROJECT''"
    by (simp add: Join_def example_tc_def)
  have c: "Contains ''domain: a.b'' ''.''" by (simp add: Contains_def HasPrefix_def Let_def)
  show ?thesis
    using C5_modes_are_kept [of "one_file ''/tmp/e2e/PROJECT'' ''domain: a.b'' 0x180"
        "''/tmp/e2e/PROJECT''"
        "\<lparr>content = ''domain: a.b'', mode = 0x180, readable = True, write_access = Granted\<rparr>"
        example_tc
        "\<lparr>content = ''domain: a.b'', mode = 0x180, readable = True, write_access = Granted\<rparr>"
        "''.''" "''::''"] c
    by (simp add: p one_file_def writable_def ReplaceInFile_def AllowProjectBeMultiGroup_def Stat_def
        ReadFile_def WriteFile_def log_event_def Replace_domain multiGroup_def newline_def Let_def)
qed

text \<open>
  C5 as stated fails: it sets \<open>UncommentCode\<close> (a fixed mode whatever the original)
  against \<open>AllowProjectBeMultiGroup\<close> (the original mode preserved), and the two do
  the same. On a \<open>PROJECT\<close> file of mode \<open>0600\<close> (\<open>0x180\<close>) both call the write with
  \<open>0644\<close> (\<open>0x1A4\<close>), and after both the file has mode \<open>0600\<close>.
\<close>

theorem C5_uncomment_and_prepend_alike:
  "UncommentCode (one_file ''/tmp/e2e/PROJECT'' ''# a'' 0x180) ''/tmp/e2e/PROJECT'' ''# a'' ''# '' =
     (None,
      \<lparr>files = [''/tmp/e2e/PROJECT'' \<mapsto>
         \<lparr>content = ''a'', mode = 0x180, readable = True, write_access = Granted\<rparr>],
       trace = [EvRead ''/tmp/e2e/PROJECT'', EvWrite ''/tmp/e2e/PROJECT'' ''a'' 0x1A4]\<rparr>) \<and>
   AllowProjectBeMultiGroup example_tc (one_file ''/tmp/e2e/PROJECT'' ''# a'' 0x180) =
     (None,
      \<lparr>files = [''/tmp/e2e/PROJECT'' \<mapsto>
         \<lparr>content = ''multigroup: true\<newline># a'', mode = 0x180,
          readable = True, write_access = Granted\<rparr>],
       trace = [EvRead ''/tmp/e2e/PROJECT'',
                EvWrite ''/tmp/e2e/PROJECT'' ''multigroup: true\<newline># a'' 0x1A4]\<rparr>) \<and>
   (0x180 :: FileMode) \<noteq> 0x1A4"
  by (simp add: UncommentCode_def AllowProjectBeMultiGroup_def one_file_def example_tc_def
      Join_def multiGroup_def ReadFile_def WriteFile_def log_event_def
      Scan_def HasPrefix_def TrimPrefix_def newline_def MaxScanTokenSize_def dropCR_def
      uncomment_loop.simps Let_def)

section \<open>Claims about the prerequisites\<close>

text \<open>
  C6. The cluster already has the Prometheus operator: \<open>servicemonitors\<close> is in the
  output of \<open>kubectl api-resources\<close>. \<open>InstallPrerequisites\<close> does not install it and
  installs OLM. \<open>UninstallPrerequisites\<close> then uninstalls both, the Prometheus
  operator too: the flag that \<open>InstallPrerequisites\<close> cleared was the flag of its own
  copy of the context.
\<close>

theorem C6_present_prometheus_is_uninstalled:
  "prerequisites_run
     (\<lambda>binaryName env. Inr \<lparr>Dir = ''/tmp/e2e'', BinaryName = binaryName, ImageName = []\<rparr>)
     (\<lambda>dir. ''e2e'') ''0.15.1'' ''operator-sdk'' [''GO111MODULE=on'']
     \<lparr>api_resources = Inr ''pods\<newline>servicemonitors\<newline>'', fails = (\<lambda>c. False), executed = []\<rparr>
   = [KubectlApiResources, InstallOLMVersion ''0.15.1'',
      UninstallPrometheusOperManager, UninstallOLM]"
  by (simp add: prerequisites_run_def NewTestContext_def InstallPrerequisites_def
      UninstallPrerequisites_def run_command_def Contains_def HasPrefix_def Let_def)

end
